theory Spec2Isabelle
  imports Main "HOL-Library.Sublist" "HOL-Library.DAList"
begin

section \<open>Data model of workflow-engine-core.ts\<close>

text \<open>
  The type aliases and interfaces of the module, field by field. Fields the engine,
  the scheduler and the validator never read (positions, descriptions, timestamps of the
  workflow, the per-variant settings of a node) are left out. A \<open>Date\<close> is a natural
  number and an optional field is an \<open>option\<close>.

  A \<open>DataValue\<close> is plain data: a primitive, an array or an object whose prototype is
  \<open>Object.prototype\<close>, as \<open>JSON.parse\<close> and object literals give. A \<open>NodeData\<close> is such
  an object, given by its own enumerable properties in enumeration order; the type
  \<open>alist\<close> has each key once.
\<close>

datatype NodeType = Action | Trigger | Table | Page | Email | Invoice | Report | Notification

datatype ExecutionStatus = Pending | Running | Completed | Failed | Skipped

datatype ErrorHandling = Stop | Continue | Retry

datatype DataValue =
    VUndefined
  | VNull
  | VBoolean bool
  | VNumber int
  | VString string
  | VArray "DataValue list"
  | VObject "(string \<times> DataValue) list"

type_synonym NodeData = "(string, DataValue) alist"

text \<open>
  Reading a property of a \<open>NodeData\<close> with \<open>obj[key]\<close> goes through the prototype chain:
  a key that the object does not own is looked up in \<open>Object.prototype\<close>, whose
  properties are the constructor \<open>Object\<close>, ten methods and the accessor \<open>__proto__\<close>,
  which returns \<open>Object.prototype\<close> itself. What a read gives is therefore a data value
  or one of these built-in objects.
\<close>

datatype Builtin = ObjectPrototypeObject | ObjectConstructor | ObjectPrototypeMethod string

datatype PropertyValue = Data DataValue | Native Builtin

definition object_prototype_methods :: "string list" where
  "object_prototype_methods =
     [''__defineGetter__'', ''__defineSetter__'', ''hasOwnProperty'', ''__lookupGetter__'',
      ''__lookupSetter__'', ''isPrototypeOf'', ''propertyIsEnumerable'', ''toString'',
      ''valueOf'', ''toLocaleString'']"

definition prop_of :: "NodeData \<Rightarrow> string \<Rightarrow> PropertyValue" where
  "prop_of obj k =
     (case DAList.lookup obj k of
        Some v \<Rightarrow> Data v
      | None \<Rightarrow>
          if k = ''__proto__'' then Native ObjectPrototypeObject
          else if k = ''constructor'' then Native ObjectConstructor
          else if k \<in> set object_prototype_methods then Native (ObjectPrototypeMethod k)
          else Data VUndefined)"

text \<open>
  The object that \<open>getNodeInputData\<close> builds starts as \<open>{}\<close> and is written with
  \<open>obj[key] = value\<close> and \<open>Object.assign\<close>, that is with the \<open>[[Set]]\<close> of the language.
  Such an object is its own properties and its prototype; the prototype is
  \<open>Object.prototype\<close> at first and changes when \<open>[[Set]]\<close> reaches the \<open>__proto__\<close>
  setter of \<open>Object.prototype\<close> with an object or \<open>null\<close>.
\<close>

datatype Prototype = ProtoObject | ProtoNull | ProtoData DataValue | ProtoFunction Builtin

record JSObject =
  own_props :: "string \<rightharpoonup> PropertyValue"
  prototype :: Prototype

datatype JSError = TypeError string

definition empty_object :: JSObject where
  "empty_object = \<lparr> own_props = Map.empty, prototype = ProtoObject \<rparr>"

text \<open>
  Where \<open>[[Set]]\<close> of a key that the object does not own ends, walking up the chain: at
  a writable data property or at the end of the chain (the property is created on the
  object itself), at the \<open>__proto__\<close> accessor (its setter is called), or at a property
  that cannot be written (strict-mode code throws a \<open>TypeError\<close>). A built-in function
  has the read-only own properties \<open>length\<close> and \<open>name\<close> (and \<open>Object\<close> has
  \<open>prototype\<close>), and inherits the throwing accessors \<open>caller\<close> and \<open>arguments\<close> from
  \<open>Function.prototype\<close>; all other properties of the prototypes that can occur here are
  writable data properties.
\<close>

datatype SetTarget = CreateOwn | ProtoSetter | ReadOnly

definition restricted_function_props :: "string list" where
  "restricted_function_props = [''length'', ''name'', ''caller'', ''arguments'']"

definition in_object_prototype :: "string \<Rightarrow> SetTarget" where
  "in_object_prototype k = (if k = ''__proto__'' then ProtoSetter else CreateOwn)"

definition find_in_chain :: "Prototype \<Rightarrow> string \<Rightarrow> SetTarget" where
  "find_in_chain proto k =
     (case proto of
        ProtoNull \<Rightarrow> CreateOwn
      | ProtoObject \<Rightarrow> in_object_prototype k
      | ProtoData d \<Rightarrow>
          (case d of
             VObject kvs \<Rightarrow> if k \<in> fst ` set kvs then CreateOwn else in_object_prototype k
           | _ \<Rightarrow> in_object_prototype k)
      | ProtoFunction f \<Rightarrow>
          if k \<in> set restricted_function_props \<or> (f = ObjectConstructor \<and> k = ''prototype'')
          then ReadOnly
          else in_object_prototype k)"

text \<open>The setter of \<open>__proto__\<close>: an object or \<open>null\<close> becomes the prototype, anything
  else is ignored.\<close>

definition set_prototype :: "JSObject \<Rightarrow> PropertyValue \<Rightarrow> JSObject" where
  "set_prototype obj v =
     (case v of
        Data VNull \<Rightarrow> obj\<lparr> prototype := ProtoNull \<rparr>
      | Data (VArray xs) \<Rightarrow> obj\<lparr> prototype := ProtoData (VArray xs) \<rparr>
      | Data (VObject kvs) \<Rightarrow> obj\<lparr> prototype := ProtoData (VObject kvs) \<rparr>
      | Data _ \<Rightarrow> obj
      | Native ObjectPrototypeObject \<Rightarrow> obj\<lparr> prototype := ProtoObject \<rparr>
      | Native f \<Rightarrow> obj\<lparr> prototype := ProtoFunction f \<rparr>)"

definition js_set :: "JSObject \<Rightarrow> string \<Rightarrow> PropertyValue \<Rightarrow> JSError + JSObject" where
  "js_set obj k v =
     (if own_props obj k \<noteq> None then Inr (obj\<lparr> own_props := (own_props obj)(k \<mapsto> v) \<rparr>)
      else (case find_in_chain (prototype obj) k of
              CreateOwn \<Rightarrow> Inr (obj\<lparr> own_props := (own_props obj)(k \<mapsto> v) \<rparr>)
            | ProtoSetter \<Rightarrow> Inr (set_prototype obj v)
            | ReadOnly \<Rightarrow> Inl (TypeError k)))"

text \<open>\<open>Object.assign(target, source)\<close>: the own enumerable properties of the source, in
  their order, are set on the target one by one.\<close>

fun assign_props :: "JSObject \<Rightarrow> (string \<times> DataValue) list \<Rightarrow> JSError + JSObject" where
  "assign_props target [] = Inr target"
| "assign_props target ((k, v) # rest) =
     (case js_set target k (Data v) of
        Inl e \<Rightarrow> Inl e
      | Inr target' \<Rightarrow> assign_props target' rest)"

definition object_assign :: "JSObject \<Rightarrow> NodeData \<Rightarrow> JSError + JSObject" where
  "object_assign target source = assign_props target (DAList.impl_of source)"

record NodeConnection =
  conn_id :: string
  sourceNodeId :: string
  targetNodeId :: string
  sourceOutput :: string
  targetInput :: string

record NodeConfig =
  node_id :: string
  node_type :: NodeType
  node_name :: string
  enabled :: bool

record WorkflowSettings =
  maxExecutionTime :: "nat option"
  maxRetries :: "nat option"
  errorHandling :: ErrorHandling

record Workflow =
  wf_id :: string
  wf_name :: string
  nodes :: "NodeConfig list"
  connections :: "NodeConnection list"
  variables :: "NodeData option"
  settings :: WorkflowSettings

record NodeExecutionContext =
  nodeId :: string
  workflowId :: string
  executionId :: string
  inputData :: JSObject
  outputData :: NodeData
  status :: ExecutionStatus
  startTime :: "nat option"
  endTime :: "nat option"
  error :: "string option"
  logs :: "string list"

record WorkflowExecution =
  exec_id :: string
  exec_workflowId :: string
  exec_status :: ExecutionStatus
  exec_startTime :: nat
  exec_endTime :: "nat option"
  triggerData :: "NodeData option"
  nodeExecutions :: "NodeExecutionContext list"
  exec_error :: "string option"

text \<open>
  What the run takes from outside the program: the clock (the value of the k-th
  \<open>new Date()\<close> of the engine), the identifier built from \<open>Date.now()\<close> and
  \<open>Math.random()\<close>, the random and time-dependent parts of the mock processor, and the
  text that the runtime gives to the message of a \<open>TypeError\<close>.
\<close>

record Env =
  clock :: "nat \<Rightarrow> nat"
  new_exec_id :: string
  iso_now :: string
  rand_records :: int
  msg_stamp :: string
  error_message :: "JSError \<Rightarrow> string"

text \<open>
  A call of \<open>BaseNodeProcessor.execute\<close> either returns a \<open>NodeData\<close> or throws; the
  message of what it throws is what the engine reads. The call is handed the context
  object itself, the object that the engine goes on to complete and to push. A processor
  is built on a node object of the workflow; the input it is handed shares its object
  values with the variables of the workflow, with the trigger payload and with the
  outputs of the contexts recorded so far; and it has been handed those contexts in
  earlier calls. A call is therefore described by its outcome together with the state in
  which it leaves the objects it can write to: its context, the node the engine is
  running, the workflow, the contexts recorded so far and the trigger payload.
\<close>

datatype Outcome = Returned NodeData | Raised string

record ProcessorRun =
  outcome :: Outcome
  context_left :: NodeExecutionContext
  node_left :: NodeConfig
  workflow_left :: Workflow
  recorded_left :: "NodeExecutionContext list"
  payload_left :: "NodeData option"

type_synonym NodeProcessor =
  "NodeExecutionContext \<Rightarrow> NodeConfig \<Rightarrow> Workflow \<Rightarrow> WorkflowExecution \<Rightarrow> ProcessorRun"

text \<open>The mock processor logs one line on the context, writes nothing else, and returns
  a payload that depends on the type of its node.\<close>

definition MockAIProcessor :: "Env \<Rightarrow> NodeConfig \<Rightarrow> NodeProcessor" where
  "MockAIProcessor env config context node workflow execution =
     \<lparr> outcome = Returned
         (case node_type config of
            Action \<Rightarrow> Alist [(''success'', VBoolean True),
                             (''data'', VString (''Mock API response for '' @ node_name config))]
          | Table \<Rightarrow> Alist [(''recordsAffected'', VNumber (rand_records env))]
          | Email \<Rightarrow> Alist [(''sent'', VBoolean True),
                            (''messageId'', VString (''msg_'' @ msg_stamp env))]
          | Notification \<Rightarrow> Alist [(''delivered'', VBoolean True),
                                   (''recipients'', VArray [VString ''user@example.com''])]
          | _ \<Rightarrow> Alist [(''processed'', VBoolean True)]),
       context_left = context\<lparr> logs := logs context @
          [''['' @ iso_now env @ ''] '' @ ''Executing mock AI process for node '' @
             node_name config] \<rparr>,
       node_left = node,
       workflow_left = workflow,
       recorded_left = nodeExecutions execution,
       payload_left = triggerData execution \<rparr>"

record WorkflowExecutionEngine =
  processors :: "string \<rightharpoonup> NodeProcessor"

definition registerProcessor ::
  "WorkflowExecutionEngine \<Rightarrow> string \<Rightarrow> NodeProcessor \<Rightarrow> WorkflowExecutionEngine" where
  "registerProcessor eng nid processor = eng\<lparr>processors := (processors eng)(nid \<mapsto> processor)\<rparr>"

section \<open>The scheduler: getExecutionOrder\<close>

text \<open>
  The closure \<open>visit\<close> works on the set \<open>visited\<close> and the array \<open>order\<close>; both are the
  state passed through. \<open>dependencies.forEach(visit)\<close> is \<open>forEach_visit\<close>.
\<close>

function (domintros)
  visit :: "NodeConnection list \<Rightarrow> string \<Rightarrow> string set \<times> string list \<Rightarrow> string set \<times> string list"
  and forEach_visit ::
    "NodeConnection list \<Rightarrow> string list \<Rightarrow> string set \<times> string list \<Rightarrow> string set \<times> string list"
where
  "visit cs nid (visited, order) =
     (if nid \<in> visited then (visited, order)
      else (let dependencies = map sourceNodeId (filter (\<lambda>conn. targetNodeId conn = nid) cs);
                (visited', order') = forEach_visit cs dependencies (insert nid visited, order)
            in (visited', order' @ [nid])))"
| "forEach_visit cs [] st = st"
| "forEach_visit cs (d # ds) st = forEach_visit cs ds (visit cs d st)"
  by pat_completeness auto

text \<open>
  The measure of a call: how many of the ids that can still be visited (the sources of
  the connections and the ids the call itself names) are not yet in \<open>visited\<close>, then the
  length of the list still to go through.
\<close>

definition visit_measure ::
  "(NodeConnection list \<times> string \<times> string set \<times> string list) +
   (NodeConnection list \<times> string list \<times> string set \<times> string list) \<Rightarrow> nat \<times> nat" where
  "visit_measure x = (case x of
      Inl (cs, n, (visited, order)) \<Rightarrow> (card (insert n (set (map sourceNodeId cs)) - visited), 0)
    | Inr (cs, ds, (visited, order)) \<Rightarrow>
        (card ((set (map sourceNodeId cs) \<union> set ds) - visited), Suc (length ds)))"

definition getExecutionOrder :: "Workflow \<Rightarrow> string list" where
  "getExecutionOrder workflow =
     snd (forEach_visit (connections workflow)
            (map node_id (filter (\<lambda>node. node_type node = Trigger) (nodes workflow)))
            ({}, []))"

section \<open>The input router: getNodeInputData\<close>

text \<open>
  The loop over the incoming connections, then the two \<open>Object.assign\<close>. Each write is
  a \<open>[[Set]]\<close> on the object being built; one that throws ends the function.
\<close>

definition route_connection :: "WorkflowExecution \<Rightarrow> JSObject \<Rightarrow> NodeConnection \<Rightarrow> JSError + JSObject" where
  "route_connection execution inp connection =
     (case find (\<lambda>exec. nodeId exec = sourceNodeId connection) (nodeExecutions execution) of
        None \<Rightarrow> Inr inp
      | Some sourceExecution \<Rightarrow>
          if status sourceExecution = Completed
          then js_set inp (targetInput connection)
                 (prop_of (outputData sourceExecution) (sourceOutput connection))
          else Inr inp)"

fun route_connections ::
  "WorkflowExecution \<Rightarrow> JSObject \<Rightarrow> NodeConnection list \<Rightarrow> JSError + JSObject" where
  "route_connections execution inp [] = Inr inp"
| "route_connections execution inp (connection # rest) =
     (case route_connection execution inp connection of
        Inl e \<Rightarrow> Inl e
      | Inr inp' \<Rightarrow> route_connections execution inp' rest)"

definition getNodeInputData ::
  "NodeConfig \<Rightarrow> Workflow \<Rightarrow> WorkflowExecution \<Rightarrow> JSError + JSObject" where
  "getNodeInputData node workflow execution =
     (let incomingConnections =
            filter (\<lambda>conn. targetNodeId conn = node_id node) (connections workflow)
      in case route_connections execution empty_object incomingConnections of
           Inl e \<Rightarrow> Inl e
         | Inr inputData1 \<Rightarrow>
             (case (case variables workflow of
                      None \<Rightarrow> Inr inputData1
                    | Some vars \<Rightarrow> object_assign inputData1 vars) of
                Inl e \<Rightarrow> Inl e
              | Inr inputData2 \<Rightarrow>
                  if node_type node = Trigger
                  then (case triggerData execution of
                          None \<Rightarrow> Inr inputData2
                        | Some td \<Rightarrow> object_assign inputData2 td)
                  else Inr inputData2))"

section \<open>The execution engine: executeWorkflow\<close>

text \<open>
  The objects a run works on: the workflow it was given, the execution record it builds,
  and how many times it has read the clock. Every step of the run takes this state and
  returns the next one.
\<close>

record EngineState =
  st_workflow :: Workflow
  st_execution :: WorkflowExecution
  st_tick :: nat

text \<open>
  The pieces of one turn of the \<open>for (const nodeId of executionOrder)\<close> loop: the fresh
  \<open>nodeContext\<close> literal around the input that was resolved, the processor looked up in
  the registry or else a new \<open>MockAIProcessor\<close>, the \<open>push\<close> onto
  \<open>execution.nodeExecutions\<close> (the two clock readings of the turn are counted with it),
  the state of the shared objects after the call of the processor, and the two assignments
  made before the \<open>break\<close>.
\<close>

definition new_context :: "Env \<Rightarrow> NodeConfig \<Rightarrow> JSObject \<Rightarrow> EngineState \<Rightarrow> NodeExecutionContext" where
  "new_context env node inp s =
     \<lparr> nodeId = node_id node,
       workflowId = wf_id (st_workflow s),
       executionId = exec_id (st_execution s),
       inputData = inp,
       outputData = DAList.empty,
       status = Running,
       startTime = Some (clock env (st_tick s)),
       endTime = None,
       error = None,
       logs = [] \<rparr>"

definition processor_for ::
  "Env \<Rightarrow> WorkflowExecutionEngine \<Rightarrow> string \<Rightarrow> NodeConfig \<Rightarrow> NodeProcessor" where
  "processor_for env eng nid node =
     (case processors eng nid of Some p \<Rightarrow> p | None \<Rightarrow> MockAIProcessor env node)"

definition push_context :: "NodeExecutionContext \<Rightarrow> EngineState \<Rightarrow> EngineState" where
  "push_context nodeContext s =
     s\<lparr> st_execution :=
           (st_execution s)\<lparr> nodeExecutions := nodeExecutions (st_execution s) @ [nodeContext] \<rparr>,
        st_tick := st_tick s + 2 \<rparr>"

definition after_call :: "ProcessorRun \<Rightarrow> EngineState \<Rightarrow> EngineState" where
  "after_call run s =
     s\<lparr> st_workflow := workflow_left run,
        st_execution := (st_execution s)\<lparr> nodeExecutions := recorded_left run,
                                           triggerData := payload_left run \<rparr> \<rparr>"

definition stop_run :: "NodeConfig \<Rightarrow> string \<Rightarrow> EngineState \<Rightarrow> EngineState" where
  "stop_run node msg s =
     s\<lparr> st_execution :=
           (st_execution s)\<lparr> exec_status := Failed,
             exec_error := Some (''Node '' @ node_name node @ '' failed: '' @ msg) \<rparr>,
        st_tick := st_tick s + 2 \<rparr>"

text \<open>
  The loop itself. Its result is the state together with the message of an exception
  that left the loop, if one did: \<open>getNodeInputData\<close> is called while the context literal
  is built, outside the inner \<open>try\<close>. The inner \<open>try\<close> is the case distinction on the
  outcome of the processor; after the call the engine goes on with the context, the node,
  the workflow, the recorded contexts and the payload as the processor left them. \<open>break\<close> is the branch that returns
  without going on to the rest of the order, and it is taken before the \<open>push\<close> at the
  end of the loop body is reached.
\<close>

fun run_order ::
  "Env \<Rightarrow> WorkflowExecutionEngine \<Rightarrow> string list \<Rightarrow> EngineState \<Rightarrow> string option \<times> EngineState" where
  "run_order env eng [] s = (None, s)"
| "run_order env eng (nid # rest) s =
     (case find (\<lambda>n. node_id n = nid) (nodes (st_workflow s)) of
        None \<Rightarrow> run_order env eng rest s
      | Some node \<Rightarrow>
          if \<not> enabled node then run_order env eng rest s
          else
            (case getNodeInputData node (st_workflow s) (st_execution s) of
               Inl e \<Rightarrow> (Some (error_message env e), s)
             | Inr inp \<Rightarrow>
                 (let nodeContext = new_context env node inp s;
                      run = processor_for env eng nid node nodeContext node
                              (st_workflow s) (st_execution s);
                      s1 = after_call run s
                  in case outcome run of
                       Returned out \<Rightarrow>
                         run_order env eng rest
                           (push_context
                              ((context_left run)\<lparr> outputData := out, status := Completed,
                                 endTime := Some (clock env (st_tick s + 1)) \<rparr>) s1)
                     | Raised msg \<Rightarrow>
                         (let failedContext =
                                (context_left run)\<lparr> status := Failed, error := Some msg,
                                  endTime := Some (clock env (st_tick s + 1)) \<rparr>
                          in if errorHandling (settings (st_workflow s1)) = Stop
                             then (None, stop_run (node_left run) msg s1)
                             else run_order env eng rest (push_context failedContext s1)))))"

text \<open>
  The body of the outer \<open>try\<close>, with the message of the exception that left it, if one
  did; then the \<open>catch\<close> and the final stamp.
\<close>

definition try_body ::
  "Env \<Rightarrow> WorkflowExecutionEngine \<Rightarrow> EngineState \<Rightarrow> string option \<times> EngineState" where
  "try_body env eng s0 =
     (let triggerNodes = filter (\<lambda>node. node_type node = Trigger) (nodes (st_workflow s0))
      in if length triggerNodes = 0
         then (Some ''No trigger nodes found in workflow'', s0)
         else
           (let executionOrder = getExecutionOrder (st_workflow s0)
            in case run_order env eng executionOrder s0 of
                 (Some msg, s') \<Rightarrow> (Some msg, s')
               | (None, s') \<Rightarrow>
                   (None,
                    if exec_status (st_execution s') \<noteq> Failed
                    then s'\<lparr> st_execution := (st_execution s')\<lparr> exec_status := Completed \<rparr> \<rparr>
                    else s')))"

definition executeWorkflow ::
  "Env \<Rightarrow> WorkflowExecutionEngine \<Rightarrow> Workflow \<Rightarrow> NodeData option \<Rightarrow> EngineState" where
  "executeWorkflow env eng workflow td =
     (let execution = \<lparr> exec_id = new_exec_id env,
                         exec_workflowId = wf_id workflow,
                         exec_status = Running,
                         exec_startTime = clock env 0,
                         exec_endTime = None,
                         triggerData = td,
                         nodeExecutions = [],
                         exec_error = None \<rparr>;
          s0 = \<lparr> st_workflow = workflow, st_execution = execution, st_tick = 1 \<rparr>;
          s1 = (case try_body env eng s0 of
                  (None, s') \<Rightarrow> s'
                | (Some msg, s') \<Rightarrow>
                    s'\<lparr> st_execution := (st_execution s')\<lparr> exec_status := Failed,
                            exec_error := Some msg \<rparr> \<rparr>)
      in s1\<lparr> st_execution := (st_execution s1)\<lparr> exec_endTime := Some (clock env (st_tick s1)) \<rparr>,
             st_tick := st_tick s1 + 1 \<rparr>)"

section \<open>The validator: validateWorkflow\<close>

record ValidationResult =
  isValid :: bool
  errors :: "string list"

function (domintros)
  hasCycle :: "NodeConnection list \<Rightarrow> string \<Rightarrow> string set \<times> string set \<Rightarrow> bool \<times> string set \<times> string set"
  and hasCycle_deps ::
    "NodeConnection list \<Rightarrow> string list \<Rightarrow> string set \<times> string set \<Rightarrow> bool \<times> string set \<times> string set"
where
  "hasCycle cs nid (visited, recursionStack) =
     (if nid \<in> recursionStack then (True, visited, recursionStack)
      else if nid \<in> visited then (False, visited, recursionStack)
      else (let dependencies = map targetNodeId (filter (\<lambda>conn. sourceNodeId conn = nid) cs);
                (found, visited', recursionStack') =
                   hasCycle_deps cs dependencies (insert nid visited, insert nid recursionStack)
            in if found then (True, visited', recursionStack')
               else (False, visited', recursionStack' - {nid})))"
| "hasCycle_deps cs [] st = (False, st)"
| "hasCycle_deps cs (depNodeId # ds) st =
     (case hasCycle cs depNodeId st of
        (True, st') \<Rightarrow> (True, st')
      | (False, st') \<Rightarrow> hasCycle_deps cs ds st')"
  by pat_completeness auto

definition hasCycle_measure ::
  "(NodeConnection list \<times> string \<times> string set \<times> string set) +
   (NodeConnection list \<times> string list \<times> string set \<times> string set) \<Rightarrow> nat \<times> nat" where
  "hasCycle_measure x = (case x of
      Inl (cs, n, (visited, stack)) \<Rightarrow> (card (insert n (set (map targetNodeId cs)) - visited), 0)
    | Inr (cs, ds, (visited, stack)) \<Rightarrow>
        (card ((set (map targetNodeId cs) \<union> set ds) - visited), Suc (length ds)))"

text \<open>The loop over \<open>workflow.nodes\<close> that starts a search at every node.\<close>

fun hasCycle_nodes :: "NodeConnection list \<Rightarrow> NodeConfig list \<Rightarrow> string set \<times> string set \<Rightarrow> bool" where
  "hasCycle_nodes cs [] st = False"
| "hasCycle_nodes cs (node # rest) st =
     (case hasCycle cs (node_id node) st of
        (True, st') \<Rightarrow> True
      | (False, st') \<Rightarrow> hasCycle_nodes cs rest st')"

definition hasCircularDependencies :: "Workflow \<Rightarrow> bool" where
  "hasCircularDependencies workflow =
     hasCycle_nodes (connections workflow) (nodes workflow) ({}, {})"

definition check_connection :: "Workflow \<Rightarrow> string list \<Rightarrow> NodeConnection \<Rightarrow> string list" where
  "check_connection workflow errs connection =
     (let sourceNode = find (\<lambda>n. node_id n = sourceNodeId connection) (nodes workflow);
          targetNode = find (\<lambda>n. node_id n = targetNodeId connection) (nodes workflow);
          errs1 = (if sourceNode = None
                   then errs @ [''Connection references non-existent source node: '' @
                                  sourceNodeId connection]
                   else errs);
          errs2 = (if targetNode = None
                   then errs1 @ [''Connection references non-existent target node: '' @
                                   targetNodeId connection]
                   else errs1)
      in errs2)"

definition validateWorkflow :: "Workflow \<Rightarrow> ValidationResult" where
  "validateWorkflow workflow =
     (let triggerNodes = filter (\<lambda>node. node_type node = Trigger) (nodes workflow);
          errs1 = (if length triggerNodes = 0
                   then [''Workflow must have at least one trigger node'']
                   else []);
          errs2 = (if hasCircularDependencies workflow
                   then errs1 @ [''Workflow contains circular dependencies'']
                   else errs1);
          errs3 = foldl (check_connection workflow) errs2 (connections workflow)
      in \<lparr> isValid = (length errs3 = 0), errors = errs3 \<rparr>)"

section \<open>Graph notions used by the properties\<close>

text \<open>
  The data-flow edges of a workflow, from the source of a connection to its target, and
  the position of two ids in an order: \<open>a\<close> appears before \<open>b\<close> when \<open>b\<close> occurs after the
  first occurrence of \<open>a\<close>.
\<close>

definition edges :: "NodeConnection list \<Rightarrow> (string \<times> string) set" where
  "edges cs = (\<lambda>conn. (sourceNodeId conn, targetNodeId conn)) ` set cs"

definition appears_before :: "'a \<Rightarrow> 'a \<Rightarrow> 'a list \<Rightarrow> bool" where
  "appears_before a b xs = (b \<in> set (drop 1 (dropWhile (\<lambda>x. x \<noteq> a) xs)))"

definition trigger_ids :: "Workflow \<Rightarrow> string list" where
  "trigger_ids workflow = map node_id (filter (\<lambda>node. node_type node = Trigger) (nodes workflow))"

section \<open>Notions about contexts and processors used by the properties\<close>



text \<open>
  What a processor may be known to leave alone: the workflow, the \<open>startTime\<close> of the
  context it is handed, or the contexts recorded before its call. \<open>every_processor\<close>
  says that all processors in the registry of an engine have such a property; the mock
  processor has all three.
\<close>

definition leaves_workflow :: "NodeProcessor \<Rightarrow> bool" where
  "leaves_workflow p = (\<forall>c n w e. workflow_left (p c n w e) = w)"



definition every_processor :: "(NodeProcessor \<Rightarrow> bool) \<Rightarrow> WorkflowExecutionEngine \<Rightarrow> bool" where
  "every_processor P eng = (\<forall>nid p. processors eng nid = Some p \<longrightarrow> P p)"

section \<open>Invariants of the two depth-first searches\<close>

text \<open>
  For the scheduler. An order is \<open>ordered\<close> when every connection into one of its ids
  has its source earlier in the order, unless the connection closes a cycle. While the
  search runs, the ids in \<open>visited\<close> but not yet in \<open>order\<close> are the calls of \<open>visit\<close>
  still open; \<open>dfs_pre\<close> asks that each of them is reached, along connections, from the
  ids about to be visited, and \<open>dfs_post\<close> relates the state after a call to the state
  before it.
\<close>

definition ordered :: "NodeConnection list \<Rightarrow> string list \<Rightarrow> bool" where
  "ordered cs ord = (\<forall>b \<in> set ord. \<forall>a. (a, b) \<in> edges cs \<longrightarrow>
       appears_before a b ord \<or> (b, a) \<in> (edges cs)\<^sup>*)"

definition dfs_pre :: "NodeConnection list \<Rightarrow> string set \<Rightarrow> string set \<times> string list \<Rightarrow> bool" where
  "dfs_pre cs tgts st = (case st of (vis, ord) \<Rightarrow>
      set ord \<subseteq> vis \<and> distinct ord \<and> ordered cs ord
    \<and> (\<forall>b \<in> set ord. \<forall>a. (a, b) \<in> edges cs \<longrightarrow> a \<in> vis)
    \<and> (\<forall>t \<in> tgts. \<forall>s \<in> vis - set ord. (t, s) \<in> (edges cs)\<^sup>*))"

definition dfs_post ::
  "NodeConnection list \<Rightarrow> string set \<Rightarrow> string set \<times> string list \<Rightarrow> string set \<times> string list \<Rightarrow> bool" where
  "dfs_post cs tgts st st' = (case st of (vis, ord) \<Rightarrow> case st' of (vis', ord') \<Rightarrow>
      vis \<subseteq> vis' \<and> tgts \<subseteq> vis' \<and> vis' - set ord' = vis - set ord
    \<and> set ord' \<subseteq> vis' \<and> distinct ord' \<and> ordered cs ord'
    \<and> (\<forall>b \<in> set ord'. \<forall>a. (a, b) \<in> edges cs \<longrightarrow> a \<in> vis')
    \<and> (\<exists>new. ord' = ord @ new \<and> (\<forall>x \<in> set new. \<exists>t \<in> tgts. (x, t) \<in> (edges cs)\<^sup>*)))"

text \<open>
  For the validator. The ids in \<open>visited\<close> that have left \<open>recursionStack\<close> are the
  finished ones: as long as no search has answered \<open>true\<close>, every connection out of a
  finished id leads to a finished id, and no finished id lies on a cycle.
\<close>

definition cycle_inv :: "NodeConnection list \<Rightarrow> string set \<times> string set \<Rightarrow> bool" where
  "cycle_inv cs st = (case st of (vis, stk) \<Rightarrow>
       stk \<subseteq> vis
     \<and> (\<forall>b \<in> vis - stk. \<forall>s. (b, s) \<in> edges cs \<longrightarrow> s \<in> vis - stk)
     \<and> (\<forall>b \<in> vis - stk. (b, b) \<notin> (edges cs)\<^sup>+))"

section \<open>Concrete workflows, engines and runs\<close>

definition mk_node :: "string \<Rightarrow> NodeType \<Rightarrow> NodeConfig" where
  "mk_node i t = \<lparr> node_id = i, node_type = t, node_name = i, enabled = True \<rparr>"

definition mk_conn :: "string \<Rightarrow> string \<Rightarrow> string \<Rightarrow> string \<Rightarrow> NodeConnection" where
  "mk_conn src out tgt inp =
     \<lparr> conn_id = src @ ''->'' @ tgt, sourceNodeId = src, targetNodeId = tgt,
       sourceOutput = out, targetInput = inp \<rparr>"

definition mk_workflow ::
  "NodeConfig list \<Rightarrow> NodeConnection list \<Rightarrow> NodeData option \<Rightarrow> ErrorHandling \<Rightarrow> Workflow" where
  "mk_workflow ns cs vars eh =
     \<lparr> wf_id = ''wf'', wf_name = ''example'', nodes = ns, connections = cs, variables = vars,
       settings = \<lparr> maxExecutionTime = None, maxRetries = None, errorHandling = eh \<rparr> \<rparr>"

definition env0 :: Env where
  "env0 = \<lparr> clock = (\<lambda>k. 1000 + k), new_exec_id = ''exec_1000_abc'',
            iso_now = ''1970-01-01T00:00:01.000Z'', rand_records = 3, msg_stamp = ''1000'',
            error_message = (\<lambda>e. case e of TypeError k \<Rightarrow> ''Cannot assign to read only property '' @ k) \<rparr>"

text \<open>Processors that write to nothing: one that returns and one that throws.\<close>

definition quiet_run :: "Outcome \<Rightarrow> NodeProcessor" where
  "quiet_run result context node workflow execution =
     \<lparr> outcome = result, context_left = context, node_left = node, workflow_left = workflow,
       recorded_left = nodeExecutions execution, payload_left = triggerData execution \<rparr>"

definition ok_processor :: NodeProcessor where
  "ok_processor = quiet_run (Returned (Alist [(''ok'', VBoolean True)]))"

definition failing_processor :: NodeProcessor where
  "failing_processor = quiet_run (Raised ''boom'')"

text \<open>
  A processor that switches its node off (\<open>this.config.enabled = false\<close>), one that
  removes the start time of its context (\<open>delete context.startTime\<close>), and one that sets
  the status of every context it was handed before back to \<open>pending\<close>.
\<close>

definition disabling_processor :: NodeProcessor where
  "disabling_processor context node workflow execution =
     (quiet_run (Returned (Alist [(''ok'', VBoolean True)])) context node workflow execution)
       \<lparr> node_left := node\<lparr> enabled := False \<rparr>,
         workflow_left := workflow\<lparr> nodes :=
           map (\<lambda>n. if node_id n = node_id node then n\<lparr> enabled := False \<rparr> else n)
             (nodes workflow) \<rparr> \<rparr>"

definition forgetful_processor :: NodeProcessor where
  "forgetful_processor context node workflow execution =
     (quiet_run (Returned (Alist [(''ok'', VBoolean True)])) context node workflow execution)
       \<lparr> context_left := context\<lparr> startTime := None \<rparr> \<rparr>"

definition meddling_processor :: NodeProcessor where
  "meddling_processor context node workflow execution =
     (quiet_run (Returned (Alist [(''ok'', VBoolean True)])) context node workflow execution)
       \<lparr> recorded_left := map (\<lambda>c. c\<lparr> status := Pending \<rparr>) (nodeExecutions execution) \<rparr>"

text \<open>\<open>T \<rightarrow> A \<rightarrow> B\<close>, with a processor for \<open>A\<close> that always throws.\<close>

definition chain_workflow :: "ErrorHandling \<Rightarrow> Workflow" where
  "chain_workflow eh =
     mk_workflow [mk_node ''T'' Trigger, mk_node ''A'' Action, mk_node ''B'' Action]
       [mk_conn ''T'' ''out'' ''A'' ''in'', mk_conn ''A'' ''out'' ''B'' ''in''] None eh"

definition chain_engine :: WorkflowExecutionEngine where
  "chain_engine =
     \<lparr> processors = [''T'' \<mapsto> ok_processor, ''A'' \<mapsto> failing_processor, ''B'' \<mapsto> ok_processor] \<rparr>"

text \<open>A single trigger, and engines whose processor for it throws, switches the node
  off, or removes the start time; and an engine for \<open>A \<rightarrow> T\<close> whose processor for
  \<open>T\<close> writes to the context of \<open>A\<close>.\<close>

definition lone_trigger_workflow :: "ErrorHandling \<Rightarrow> Workflow" where
  "lone_trigger_workflow eh = mk_workflow [mk_node ''T'' Trigger] [] None eh"

definition failing_trigger_engine :: WorkflowExecutionEngine where
  "failing_trigger_engine = \<lparr> processors = [''T'' \<mapsto> failing_processor] \<rparr>"

definition disabling_engine :: WorkflowExecutionEngine where
  "disabling_engine = \<lparr> processors = [''T'' \<mapsto> disabling_processor] \<rparr>"

definition forgetful_engine :: WorkflowExecutionEngine where
  "forgetful_engine = \<lparr> processors = [''T'' \<mapsto> forgetful_processor] \<rparr>"

definition meddling_engine :: WorkflowExecutionEngine where
  "meddling_engine = \<lparr> processors = [''A'' \<mapsto> ok_processor, ''T'' \<mapsto> meddling_processor] \<rparr>"

text \<open>A trigger and a node connected both ways: \<open>T \<rightarrow> X\<close> and \<open>X \<rightarrow> T\<close>.\<close>

definition cyclic_workflow :: Workflow where
  "cyclic_workflow =
     mk_workflow [mk_node ''T'' Trigger, mk_node ''X'' Action]
       [mk_conn ''T'' ''out'' ''X'' ''in'', mk_conn ''X'' ''out'' ''T'' ''in''] None Stop"

text \<open>A node that feeds the trigger: \<open>A \<rightarrow> T\<close>.\<close>

definition upstream_workflow :: "ErrorHandling \<Rightarrow> Workflow" where
  "upstream_workflow eh =
     mk_workflow [mk_node ''T'' Trigger, mk_node ''A'' Action]
       [mk_conn ''A'' ''out'' ''T'' ''in''] None eh"

text \<open>
  \<open>T \<rightarrow> A\<close> routing the output \<open>out\<close> of \<open>T\<close> to the input \<open>key\<close> of \<open>A\<close>, in a
  workflow that also has a variable \<open>key\<close> with the value \<open>1\<close>; an execution in which
  \<open>T\<close> has completed with \<open>out = 2\<close>; and an execution that was started with the payload
  \<open>key = 2\<close>.
\<close>

definition routed_workflow :: "string \<Rightarrow> Workflow" where
  "routed_workflow key =
     mk_workflow [mk_node ''T'' Trigger, mk_node ''A'' Action]
       [mk_conn ''T'' ''out'' ''A'' key] (Some (Alist [(key, VNumber 1)])) Stop"

definition routed_execution :: WorkflowExecution where
  "routed_execution =
     \<lparr> exec_id = ''exec_1000_abc'', exec_workflowId = ''wf'', exec_status = Running,
       exec_startTime = 1000, exec_endTime = None, triggerData = None,
       nodeExecutions =
         [\<lparr> nodeId = ''T'', workflowId = ''wf'', executionId = ''exec_1000_abc'',
            inputData = empty_object, outputData = Alist [(''out'', VNumber 2)],
            status = Completed, startTime = Some 1001, endTime = Some 1002, error = None,
            logs = [] \<rparr>],
       exec_error = None \<rparr>"

definition payload_execution :: "string \<Rightarrow> WorkflowExecution" where
  "payload_execution key =
     \<lparr> exec_id = ''exec_1000_abc'', exec_workflowId = ''wf'', exec_status = Running,
       exec_startTime = 1000, exec_endTime = None,
       triggerData = Some (Alist [(key, VNumber 2)]),
       nodeExecutions = [], exec_error = None \<rparr>"

text \<open>A workflow without a trigger.\<close>

definition no_trigger_workflow :: Workflow where
  "no_trigger_workflow = mk_workflow [mk_node ''A'' Action] [] None Stop"

lemmas example_defs = mk_node_def mk_conn_def mk_workflow_def env0_def quiet_run_def
  ok_processor_def failing_processor_def disabling_processor_def forgetful_processor_def
  meddling_processor_def meddling_engine_def chain_workflow_def
  chain_engine_def lone_trigger_workflow_def failing_trigger_engine_def disabling_engine_def
  forgetful_engine_def cyclic_workflow_def upstream_workflow_def routed_workflow_def
  routed_execution_def payload_execution_def no_trigger_workflow_def

lemmas object_defs = prop_of_def js_set_def find_in_chain_def in_object_prototype_def
  set_prototype_def object_assign_def empty_object_def DAList.lookup.rep_eq impl_of_Alist
  object_prototype_methods_def restricted_function_props_def

lemmas engine_defs = executeWorkflow_def try_body_def Let_def new_context_def processor_for_def
  push_context_def after_call_def stop_run_def getNodeInputData_def route_connection_def
  getExecutionOrder_def

section \<open>Termination of the two searches\<close>

text \<open>
  Both closures recurse through a loop over a list, and the state a later call starts
  from is the result of an earlier one. What makes the recursion end is that \<open>visited\<close>
  only grows: each call that does not return at once adds an id that was not there.
\<close>

lemma visit_grows_dom:
  "visit_forEach_visit_dom (Inl (cs, n, st)) \<Longrightarrow> fst st \<subseteq> fst (visit cs n st)"
  "visit_forEach_visit_dom (Inr (cs, ds, st)) \<Longrightarrow> fst st \<subseteq> fst (forEach_visit cs ds st)"
proof (induction cs n st and cs ds st rule: visit_forEach_visit.pinduct)
  case (1 cs nid visited order)
  then show ?case
    by (auto simp: visit.psimps split: prod.splits)
next
  case (2 cs st)
  then show ?case by (simp add: forEach_visit.psimps)
next
  case (3 cs d ds st)
  then show ?case by (auto simp: forEach_visit.psimps)
qed

lemma lex_le_lt:
  "a \<le> (a'::nat) \<Longrightarrow> b < (b'::nat) \<Longrightarrow> ((a, b), (a', b')) \<in> less_than <*lex*> less_than"
  by auto

termination visit
proof (relation "inv_image (less_than <*lex*> less_than) visit_measure")
  show "wf (inv_image (less_than <*lex*> less_than) visit_measure)"
    by (intro wf_inv_image wf_lex_prod wf_less_than)
next
  fix cs :: "NodeConnection list" and nid visited and order :: "string list" and x
  assume n: "nid \<notin> visited"
    and x: "x = map sourceNodeId (filter (\<lambda>conn. targetNodeId conn = nid) cs)"
  have "(set (map sourceNodeId cs) \<union> set x) - insert nid visited
          \<subset> insert nid (set (map sourceNodeId cs)) - visited"
    using n x by auto
  then have "card ((set (map sourceNodeId cs) \<union> set x) - insert nid visited)
          < card (insert nid (set (map sourceNodeId cs)) - visited)"
    by (intro psubset_card_mono) auto
  then show "(Inr (cs, x, insert nid visited, order), Inl (cs, nid, visited, order))
          \<in> inv_image (less_than <*lex*> less_than) visit_measure"
    by (simp add: visit_measure_def)
next
  fix cs :: "NodeConnection list" and d ds and st :: "string set \<times> string list"
  obtain visited order where st: "st = (visited, order)" by (cases st)
  have "card (insert d (set (map sourceNodeId cs)) - visited)
          \<le> card ((set (map sourceNodeId cs) \<union> set (d # ds)) - visited)"
    by (intro card_mono) auto
  then show "(Inl (cs, d, st), Inr (cs, d # ds, st))
          \<in> inv_image (less_than <*lex*> less_than) visit_measure"
    unfolding st visit_measure_def in_inv_image
    by (simp only: sum.case prod.case) (rule lex_le_lt, auto)
next
  fix cs :: "NodeConnection list" and d ds and st :: "string set \<times> string list"
  assume dom: "visit_forEach_visit_dom (Inl (cs, d, st))"
  obtain visited order where st: "st = (visited, order)" by (cases st)
  obtain visited' order' where st': "visit cs d (visited, order) = (visited', order')"
    by (cases "visit cs d (visited, order)")
  have sub: "visited \<subseteq> visited'" using visit_grows_dom(1)[OF dom] st st' by simp
  have "card ((set (map sourceNodeId cs) \<union> set ds) - visited')
          \<le> card ((set (map sourceNodeId cs) \<union> set (d # ds)) - visited)"
    using sub by (intro card_mono) auto
  then show "(Inr (cs, ds, visit cs d st), Inr (cs, d # ds, st))
          \<in> inv_image (less_than <*lex*> less_than) visit_measure"
    unfolding st' st visit_measure_def in_inv_image
    by (simp only: sum.case prod.case) (rule lex_le_lt, auto)
qed


lemma hasCycle_grows_dom:
  "hasCycle_hasCycle_deps_dom (Inl (cs, n, st)) \<Longrightarrow> fst st \<subseteq> fst (snd (hasCycle cs n st))"
  "hasCycle_hasCycle_deps_dom (Inr (cs, ds, st)) \<Longrightarrow> fst st \<subseteq> fst (snd (hasCycle_deps cs ds st))"
proof (induction cs n st and cs ds st rule: hasCycle_hasCycle_deps.pinduct)
  case (1 cs nid visited recursionStack)
  then show ?case
    by (auto simp: hasCycle.psimps split: prod.splits)
next
  case (2 cs st)
  then show ?case by (simp add: hasCycle_deps.psimps)
next
  case (3 cs d ds st)
  show ?case
  proof (cases "hasCycle cs d st")
    case (fields found visited' stack')
    show ?thesis
    proof (cases found)
      case True
      with fields 3 show ?thesis by (simp add: hasCycle_deps.psimps)
    next
      case False
      with fields 3(2) have a: "fst st \<subseteq> visited'" by simp
      from False fields 3(3)[of found "(visited', stack')"]
      have b: "visited' \<subseteq> fst (snd (hasCycle_deps cs ds (visited', stack')))" by simp
      from a b False fields 3(1) show ?thesis by (simp add: hasCycle_deps.psimps)
    qed
  qed
qed

termination hasCycle
proof (relation "inv_image (less_than <*lex*> less_than) hasCycle_measure")
  show "wf (inv_image (less_than <*lex*> less_than) hasCycle_measure)"
    by (intro wf_inv_image wf_lex_prod wf_less_than)
next
  fix cs :: "NodeConnection list" and nid visited and recursionStack :: "string set" and x
  assume n: "nid \<notin> visited"
    and x: "x = map targetNodeId (filter (\<lambda>conn. sourceNodeId conn = nid) cs)"
  have "(set (map targetNodeId cs) \<union> set x) - insert nid visited
          \<subset> insert nid (set (map targetNodeId cs)) - visited"
    using n x by auto
  then have "card ((set (map targetNodeId cs) \<union> set x) - insert nid visited)
          < card (insert nid (set (map targetNodeId cs)) - visited)"
    by (intro psubset_card_mono) auto
  then show "(Inr (cs, x, insert nid visited, insert nid recursionStack),
              Inl (cs, nid, visited, recursionStack))
          \<in> inv_image (less_than <*lex*> less_than) hasCycle_measure"
    by (simp add: hasCycle_measure_def)
next
  fix cs :: "NodeConnection list" and depNodeId ds and st :: "string set \<times> string set"
  obtain visited stack where st: "st = (visited, stack)" by (cases st)
  have "card (insert depNodeId (set (map targetNodeId cs)) - visited)
          \<le> card ((set (map targetNodeId cs) \<union> set (depNodeId # ds)) - visited)"
    by (intro card_mono) auto
  then show "(Inl (cs, depNodeId, st), Inr (cs, depNodeId # ds, st))
          \<in> inv_image (less_than <*lex*> less_than) hasCycle_measure"
    unfolding st hasCycle_measure_def in_inv_image
    by (simp only: sum.case prod.case) (rule lex_le_lt, auto)
next
  fix cs :: "NodeConnection list" and depNodeId ds and st st' :: "string set \<times> string set"
    and found :: bool
  assume dom: "hasCycle_hasCycle_deps_dom (Inl (cs, depNodeId, st))"
    and x: "(found, st') = hasCycle cs depNodeId st" and "found = False"
  obtain visited stack where st: "st = (visited, stack)" by (cases st)
  obtain visited' stack' where st': "st' = (visited', stack')" by (cases st')
  have sub: "visited \<subseteq> visited'" using hasCycle_grows_dom(1)[OF dom] st st' x[symmetric] by simp
  have "card ((set (map targetNodeId cs) \<union> set ds) - visited')
          \<le> card ((set (map targetNodeId cs) \<union> set (depNodeId # ds)) - visited)"
    using sub by (intro card_mono) auto
  then show "(Inr (cs, ds, st'), Inr (cs, depNodeId # ds, st))
          \<in> inv_image (less_than <*lex*> less_than) hasCycle_measure"
    unfolding st' st hasCycle_measure_def in_inv_image
    by (simp only: sum.case prod.case) (rule lex_le_lt, auto)
qed

declare visit.simps [simp del] hasCycle.simps [simp del]

section \<open>Properties of the input router\<close>

lemma find_in_chain_setter: "find_in_chain proto k = ProtoSetter \<Longrightarrow> k = ''__proto__''"
  by (auto simp: find_in_chain_def in_object_prototype_def
      split: Prototype.splits DataValue.splits if_splits)

lemma own_props_set_prototype: "own_props (set_prototype obj v) = own_props obj"
  by (simp add: set_prototype_def split: PropertyValue.split DataValue.split Builtin.split)

lemma js_set_other:
  assumes "js_set obj k' v' = Inr obj'" and "k \<noteq> k'"
  shows "own_props obj' k = own_props obj k"
  using assms
  by (auto simp: js_set_def own_props_set_prototype split: if_splits SetTarget.splits)

lemma js_set_same:
  assumes "js_set obj k v = Inr obj'" and "k \<noteq> ''__proto__''"
  shows "own_props obj' k = Some v"
  using assms
  by (auto simp: js_set_def split: if_splits SetTarget.splits dest: find_in_chain_setter)

lemma assign_props_other:
  assumes "assign_props target kvs = Inr target'" and "k \<notin> fst ` set kvs"
  shows "own_props target' k = own_props target k"
  using assms
proof (induction kvs arbitrary: target)
  case Nil
  then show ?case by simp
next
  case (Cons kv rest)
  obtain k' v' where kv: "kv = (k', v')" by (cases kv)
  from Cons.prems(1) obtain mid where
    m: "js_set target k' (Data v') = Inr mid" "assign_props mid rest = Inr target'"
    unfolding kv by (auto split: sum.splits)
  have "k \<noteq> k'" using Cons.prems(2) kv by auto
  with m(1) have "own_props mid k = own_props target k" by (rule js_set_other)
  moreover have "own_props target' k = own_props mid k"
    using m(2) Cons.prems(2) by (intro Cons.IH) auto
  ultimately show ?case by simp
qed

lemma assign_props_binds:
  assumes "assign_props target kvs = Inr target'" and "distinct (map fst kvs)"
    and "map_of kvs k = Some v" and "k \<noteq> ''__proto__''"
  shows "own_props target' k = Some (Data v)"
  using assms(1,2,3)
proof (induction kvs arbitrary: target)
  case Nil
  then show ?case by simp
next
  case (Cons kv rest)
  obtain k' v' where kv: "kv = (k', v')" by (cases kv)
  from Cons.prems(1) obtain mid where
    m: "js_set target k' (Data v') = Inr mid" "assign_props mid rest = Inr target'"
    unfolding kv by (auto split: sum.splits)
  show ?case
  proof (cases "k' = k")
    case True
    then have v: "v' = v" using Cons.prems(3) kv by simp
    have "k \<notin> fst ` set rest" using Cons.prems(2) kv True by auto
    with m(2) have "own_props target' k = own_props mid k" by (rule assign_props_other)
    moreover have "own_props mid k = Some (Data v)"
      using m(1) assms(4) unfolding True v by (rule js_set_same)
    ultimately show ?thesis by simp
  next
    case False
    then have "map_of rest k = Some v" using Cons.prems(3) kv by simp
    moreover have "distinct (map fst rest)" using Cons.prems(2) by simp
    ultimately show ?thesis using m(2) by (intro Cons.IH)
  qed
qed

lemma object_assign_binds:
  assumes "object_assign target source = Inr target'"
    and "DAList.lookup source k = Some v" and "k \<noteq> ''__proto__''"
  shows "own_props target' k = Some (Data v)"
proof (rule assign_props_binds)
  show "assign_props target (DAList.impl_of source) = Inr target'"
    using assms(1) by (simp add: object_assign_def)
  show "distinct (map fst (DAList.impl_of source))" by simp
  show "map_of (DAList.impl_of source) k = Some v"
    using assms(2) by (simp add: DAList.lookup.rep_eq)
  show "k \<noteq> ''__proto__''" by (rule assms(3))
qed

text \<open>
  Writing plain data never throws as long as the prototype of the object is not a
  built-in function, and it leaves the prototype that way; so an input that no connection
  feeds is always resolved.
\<close>

lemma js_set_data:
  assumes "\<forall>f. prototype obj \<noteq> ProtoFunction f"
  shows "\<exists>obj'. js_set obj k (Data v) = Inr obj' \<and> (\<forall>f. prototype obj' \<noteq> ProtoFunction f)"
proof (cases "own_props obj k \<noteq> None")
  case True
  then show ?thesis using assms by (simp add: js_set_def)
next
  case False
  have "find_in_chain (prototype obj) k \<noteq> ReadOnly"
    using assms
    by (auto simp: find_in_chain_def in_object_prototype_def
        split: Prototype.splits DataValue.splits)
  then consider "find_in_chain (prototype obj) k = CreateOwn"
    | "find_in_chain (prototype obj) k = ProtoSetter"
    by (cases "find_in_chain (prototype obj) k") auto
  then show ?thesis
  proof cases
    case 1
    with False assms show ?thesis by (simp add: js_set_def)
  next
    case 2
    have "\<forall>f. prototype (set_prototype obj (Data v)) \<noteq> ProtoFunction f"
      using assms by (simp add: set_prototype_def split: DataValue.split)
    with 2 False show ?thesis by (simp add: js_set_def)
  qed
qed

lemma assign_props_data:
  assumes "\<forall>f. prototype target \<noteq> ProtoFunction f"
  shows "\<exists>target'. assign_props target kvs = Inr target'
           \<and> (\<forall>f. prototype target' \<noteq> ProtoFunction f)"
  using assms
proof (induction kvs arbitrary: target)
  case Nil
  then show ?case by simp
next
  case (Cons kv rest)
  obtain k v where kv: "kv = (k, v)" by (cases kv)
  from js_set_data[OF Cons.prems, of k v] obtain mid where
    m: "js_set target k (Data v) = Inr mid" "\<forall>f. prototype mid \<noteq> ProtoFunction f" by blast
  from Cons.IH[OF m(2)] m(1) show ?case unfolding kv by simp
qed

lemma object_assign_data:
  assumes "\<forall>f. prototype target \<noteq> ProtoFunction f"
  shows "\<exists>target'. object_assign target source = Inr target'
           \<and> (\<forall>f. prototype target' \<noteq> ProtoFunction f)"
  unfolding object_assign_def using assms by (rule assign_props_data)

lemma js_set_plain_key:
  assumes "prototype obj = ProtoObject" and "k \<noteq> ''__proto__''"
  shows "\<exists>obj'. js_set obj k v = Inr obj' \<and> prototype obj' = ProtoObject"
  using assms by (simp add: js_set_def find_in_chain_def in_object_prototype_def)

lemma route_connections_plain_keys:
  assumes "prototype inp = ProtoObject"
    and "\<forall>conn \<in> set cs. targetInput conn \<noteq> ''__proto__''"
  shows "\<exists>inp'. route_connections execution inp cs = Inr inp' \<and> prototype inp' = ProtoObject"
  using assms
proof (induction cs arbitrary: inp)
  case Nil
  then show ?case by simp
next
  case (Cons conn rest)
  have k: "targetInput conn \<noteq> ''__proto__''" using Cons.prems(2) by simp
  have "\<exists>mid. route_connection execution inp conn = Inr mid \<and> prototype mid = ProtoObject"
    using Cons.prems(1) js_set_plain_key[OF Cons.prems(1) k]
    by (auto simp: route_connection_def split: option.splits)
  then obtain mid where m: "route_connection execution inp conn = Inr mid"
    "prototype mid = ProtoObject" by blast
  have "\<forall>conn \<in> set rest. targetInput conn \<noteq> ''__proto__''" using Cons.prems(2) by simp
  from Cons.IH[OF m(2) this] m(1) show ?case by simp
qed

text \<open>
  The router returns an input object at least when no connection into the node writes
  to the input \<open>__proto__\<close>: the prototype is then \<open>Object.prototype\<close> when the
  variables and the payload, which are plain data, are merged.
\<close>

lemma getNodeInputData_returns:
  assumes "\<forall>conn \<in> set (connections workflow).
             targetNodeId conn = node_id node \<longrightarrow> targetInput conn \<noteq> ''__proto__''"
  shows "\<exists>inp. getNodeInputData node workflow execution = Inr inp"
proof -
  let ?incoming = "filter (\<lambda>conn. targetNodeId conn = node_id node) (connections workflow)"
  have "\<forall>conn \<in> set ?incoming. targetInput conn \<noteq> ''__proto__''" using assms by simp
  from route_connections_plain_keys[OF _ this, of empty_object execution]
  obtain routed where r: "route_connections execution empty_object ?incoming = Inr routed"
    "prototype routed = ProtoObject" by (auto simp: empty_object_def)
  have p: "\<forall>f. prototype routed \<noteq> ProtoFunction f" using r(2) by simp
  have "\<exists>mid. (case variables workflow of None \<Rightarrow> Inr routed
      | Some vars \<Rightarrow> object_assign routed vars) = Inr mid
      \<and> (\<forall>f. prototype mid \<noteq> ProtoFunction f)"
  proof (cases "variables workflow")
    case None
    then show ?thesis using p by simp
  next
    case (Some vars)
    then show ?thesis using object_assign_data[OF p, of vars] by simp
  qed
  then obtain mid where mid:
    "(case variables workflow of None \<Rightarrow> Inr routed
      | Some vars \<Rightarrow> object_assign routed vars) = Inr mid"
    "\<forall>f. prototype mid \<noteq> ProtoFunction f" by blast
  have "\<exists>fin. (case triggerData execution of None \<Rightarrow> Inr mid
      | Some td \<Rightarrow> object_assign mid td) = Inr fin"
  proof (cases "triggerData execution")
    case None
    then show ?thesis by simp
  next
    case (Some td)
    then show ?thesis using object_assign_data[OF mid(2), of td] by auto
  qed
  then obtain fin where fin:
    "(case triggerData execution of None \<Rightarrow> Inr mid
      | Some td \<Rightarrow> object_assign mid td) = Inr fin" by blast
  show ?thesis using r(1) mid(1) fin by (auto simp: getNodeInputData_def Let_def)
qed

lemma getNodeInputData_no_incoming:
  assumes "filter (\<lambda>conn. targetNodeId conn = node_id node) (connections workflow) = []"
  shows "\<exists>inp. getNodeInputData node workflow execution = Inr inp"
proof (rule getNodeInputData_returns)
  show "\<forall>conn \<in> set (connections workflow).
          targetNodeId conn = node_id node \<longrightarrow> targetInput conn \<noteq> ''__proto__''"
    using assms by (auto simp: filter_empty_conv)
qed

text \<open>
  The router can throw. When a connection reads the inherited property \<open>constructor\<close>
  of an output and writes it to the input \<open>__proto__\<close>, the prototype of the input
  object becomes the function \<open>Object\<close>, whose \<open>name\<close> is read-only; merging a variable
  \<open>name\<close> then throws a \<open>TypeError\<close>.
\<close>

lemma getNodeInputData_read_only_throws:
  "getNodeInputData (mk_node ''A'' Action)
     (mk_workflow [mk_node ''T'' Trigger, mk_node ''A'' Action]
        [mk_conn ''T'' ''constructor'' ''A'' ''__proto__'']
        (Some (Alist [(''name'', VString ''n'')])) Stop)
     routed_execution
   = Inl (TypeError ''name'')"
  by (simp add: getNodeInputData_def Let_def route_connection_def object_defs example_defs)




text \<open>
  Claim C3, as the code has it. For a node that is not a trigger, a key other than
  \<open>__proto__\<close> that a workflow variable defines is bound, in the input object that
  \<open>getNodeInputData\<close> resolves, to the variable's value, also when a connection routes
  the output of a completed upstream node to the same key: the variables are merged after
  the routed outputs, so the routed output is the one that is shadowed. An input object
  is resolved at least when no connection into the node writes to the input \<open>__proto__\<close>.
\<close>

theorem getNodeInputData_variable_wins:
  assumes "node_type node \<noteq> Trigger"
    and "variables workflow = Some vars"
    and "DAList.lookup vars k = Some v"
    and "k \<noteq> ''__proto__''"
  shows "(\<forall>inp. getNodeInputData node workflow execution = Inr inp \<longrightarrow>
            own_props inp k = Some (Data v))
       \<and> ((\<forall>conn \<in> set (connections workflow).
              targetNodeId conn = node_id node \<longrightarrow> targetInput conn \<noteq> ''__proto__'') \<longrightarrow>
          (\<exists>inp. getNodeInputData node workflow execution = Inr inp))"
proof (intro conjI allI impI)
  fix inp assume "getNodeInputData node workflow execution = Inr inp"
  with assms(1,2) obtain mid where "object_assign mid vars = Inr inp"
    by (auto simp: getNodeInputData_def Let_def split: sum.splits)
  then show "own_props inp k = Some (Data v)" using assms(3,4) by (rule object_assign_binds)
next
  assume "\<forall>conn \<in> set (connections workflow).
            targetNodeId conn = node_id node \<longrightarrow> targetInput conn \<noteq> ''__proto__''"
  then show "\<exists>inp. getNodeInputData node workflow execution = Inr inp"
    by (rule getNodeInputData_returns)
qed

theorem getNodeInputData_variable_wins_witness:
  "node_type (mk_node ''A'' Action) \<noteq> Trigger
   \<and> variables (routed_workflow ''x'') = Some (Alist [(''x'', VNumber 1)])
   \<and> DAList.lookup (Alist [(''x'', VNumber 1)]) ''x'' = Some (VNumber 1)
   \<and> getNodeInputData (mk_node ''A'' Action) (routed_workflow ''x'') routed_execution
       = Inr \<lparr> own_props = [''x'' \<mapsto> Data (VNumber 1)], prototype = ProtoObject \<rparr>
   \<and> own_props \<lparr> own_props = [''x'' \<mapsto> Data (VNumber 1)], prototype = ProtoObject \<rparr> ''x''
       = Some (Data (VNumber 1))"
proof -
  have t: "node_type (mk_node ''A'' Action) \<noteq> Trigger" by (simp add: mk_node_def)
  have vars: "variables (routed_workflow ''x'') = Some (Alist [(''x'', VNumber 1)])"
    by (simp add: routed_workflow_def mk_workflow_def)
  have l: "DAList.lookup (Alist [(''x'', VNumber 1)]) ''x'' = Some (VNumber 1)"
    by (simp add: DAList.lookup.rep_eq impl_of_Alist)
  have k: "''x'' \<noteq> ''__proto__''" by simp
  have r: "getNodeInputData (mk_node ''A'' Action) (routed_workflow ''x'') routed_execution
       = Inr \<lparr> own_props = [''x'' \<mapsto> Data (VNumber 1)], prototype = ProtoObject \<rparr>"
    by (simp add: getNodeInputData_def Let_def route_connection_def object_defs example_defs)
  from getNodeInputData_variable_wins [OF t vars l k, of routed_execution] r
  have b: "own_props \<lparr> own_props = [''x'' \<mapsto> Data (VNumber 1)], prototype = ProtoObject \<rparr> ''x''
       = Some (Data (VNumber 1))" by blast
  from t vars l r b show ?thesis by (intro conjI)
qed

text \<open>
  The claim as it was stated fails on the routed workflow. At the key \<open>x\<close> the
  connection \<open>T \<rightarrow> A\<close> brings the value \<open>2\<close> of the completed \<open>T\<close>, the variable \<open>x\<close> is
  \<open>1\<close>, and the input of \<open>A\<close> binds \<open>x\<close> to \<open>1\<close>. At the key \<open>__proto__\<close> neither value
  is bound: both writes end in the setter of \<open>Object.prototype\<close>, which ignores a number.
\<close>

theorem getNodeInputData_routed_output_shadowed:
  "node_type (mk_node ''A'' Action) \<noteq> Trigger
   \<and> variables (routed_workflow ''x'') = Some (Alist [(''x'', VNumber 1)])
   \<and> route_connections routed_execution empty_object
        (filter (\<lambda>conn. targetNodeId conn = node_id (mk_node ''A'' Action))
           (connections (routed_workflow ''x'')))
       = Inr \<lparr> own_props = [''x'' \<mapsto> Data (VNumber 2)], prototype = ProtoObject \<rparr>
   \<and> getNodeInputData (mk_node ''A'' Action) (routed_workflow ''x'') routed_execution
       = Inr \<lparr> own_props = [''x'' \<mapsto> Data (VNumber 1)], prototype = ProtoObject \<rparr>
   \<and> getNodeInputData (mk_node ''A'' Action) (routed_workflow ''__proto__'') routed_execution
       = Inr \<lparr> own_props = Map.empty, prototype = ProtoObject \<rparr>"
  by (simp add: getNodeInputData_def Let_def route_connection_def object_defs example_defs)

section \<open>Properties of the execution engine\<close>

lemma case_getNodeInputData_no_incoming:
  assumes "filter (\<lambda>conn. targetNodeId conn = node_id node) (connections workflow) = []"
  shows "case_sum A B (getNodeInputData node workflow execution)
       = B (projr (getNodeInputData node workflow execution))"
  using getNodeInputData_no_incoming[OF assms, of execution] by auto



lemma processor_for_cases:
  assumes "every_processor P eng" and "P (MockAIProcessor env node)"
  shows "P (processor_for env eng nid node)"
  using assms by (auto simp: processor_for_def every_processor_def split: option.splits)

lemma MockAIProcessor_leaves_workflow: "leaves_workflow (MockAIProcessor env node)"
  by (simp add: leaves_workflow_def MockAIProcessor_def)



lemma run_order_workflow:
  assumes "every_processor leaves_workflow eng"
  shows "st_workflow (snd (run_order env eng order s)) = st_workflow s"
proof (induction order arbitrary: s)
  case Nil
  show ?case by simp
next
  case (Cons nid rest)
  have p: "\<And>node c n w e. workflow_left (processor_for env eng nid node c n w e) = w"
    using processor_for_cases[OF assms MockAIProcessor_leaves_workflow]
    by (simp add: leaves_workflow_def)
  show ?case
    by (simp add: Cons.IH Let_def p push_context_def stop_run_def after_call_def
        split: option.split sum.split Outcome.split)
qed








lemma executeWorkflow_try_body:
  "nodeExecutions (st_execution (executeWorkflow env eng workflow td))
     = nodeExecutions (st_execution (snd (try_body env eng
         \<lparr> st_workflow = workflow,
           st_execution = \<lparr> exec_id = new_exec_id env, exec_workflowId = wf_id workflow,
             exec_status = Running, exec_startTime = clock env 0, exec_endTime = None,
             triggerData = td, nodeExecutions = [], exec_error = None \<rparr>,
           st_tick = 1 \<rparr>)))"
  "st_workflow (executeWorkflow env eng workflow td)
     = st_workflow (snd (try_body env eng
         \<lparr> st_workflow = workflow,
           st_execution = \<lparr> exec_id = new_exec_id env, exec_workflowId = wf_id workflow,
             exec_status = Running, exec_startTime = clock env 0, exec_endTime = None,
             triggerData = td, nodeExecutions = [], exec_error = None \<rparr>,
           st_tick = 1 \<rparr>))"
  by (auto simp: executeWorkflow_def Let_def split: prod.splits option.splits)

lemma try_body_run_order:
  "(nodeExecutions (st_execution (snd (try_body env eng s0))) = nodeExecutions (st_execution s0)
    \<and> st_workflow (snd (try_body env eng s0)) = st_workflow s0)
   \<or> (nodeExecutions (st_execution (snd (try_body env eng s0)))
        = nodeExecutions (st_execution
            (snd (run_order env eng (getExecutionOrder (st_workflow s0)) s0)))
      \<and> st_workflow (snd (try_body env eng s0))
        = st_workflow (snd (run_order env eng (getExecutionOrder (st_workflow s0)) s0)))"
proof -
  obtain th s' where r: "run_order env eng (getExecutionOrder (st_workflow s0)) s0 = (th, s')"
    by (cases "run_order env eng (getExecutionOrder (st_workflow s0)) s0")
  show ?thesis by (cases th) (simp_all add: try_body_def Let_def r)
qed

text \<open>
  Claim C6. A workflow with no trigger node is rejected before any node is attempted:
  \<open>executeWorkflow\<close> returns an execution with status \<open>failed\<close>, with the error set, and
  with an empty \<open>nodeExecutions\<close>. The \<open>throw\<close> is caught by the engine's own handler, so
  the call returns.
\<close>

theorem executeWorkflow_no_trigger:
  assumes "length (filter (\<lambda>node. node_type node = Trigger) (nodes workflow)) = 0"
  shows "exec_status (st_execution (executeWorkflow env eng workflow td)) = Failed
       \<and> exec_error (st_execution (executeWorkflow env eng workflow td))
            = Some ''No trigger nodes found in workflow''
       \<and> nodeExecutions (st_execution (executeWorkflow env eng workflow td)) = []"
  using assms by (simp add: executeWorkflow_def try_body_def Let_def)

theorem executeWorkflow_no_trigger_witness:
  "length (filter (\<lambda>node. node_type node = Trigger) (nodes no_trigger_workflow)) = 0
   \<and> exec_status (st_execution (executeWorkflow env0 chain_engine no_trigger_workflow None)) = Failed
   \<and> exec_error (st_execution (executeWorkflow env0 chain_engine no_trigger_workflow None))
        = Some ''No trigger nodes found in workflow''
   \<and> nodeExecutions (st_execution (executeWorkflow env0 chain_engine no_trigger_workflow None)) = []"
proof -
  have h: "length (filter (\<lambda>node. node_type node = Trigger) (nodes no_trigger_workflow)) = 0"
    by (simp add: no_trigger_workflow_def mk_workflow_def mk_node_def)
  from h executeWorkflow_no_trigger [OF h, of env0 chain_engine None]
  show ?thesis by (intro conjI) simp_all
qed

text \<open>
  Claim C9, as the code has it. If no processor in the registry of the engine changes the
  workflow, then the workflow a run was given is the workflow it ends with: no step of
  \<open>executeWorkflow\<close>, of its loop or of \<open>getNodeInputData\<close> assigns to the workflow, to its
  nodes, connections, variables or settings; the engine's own steps only build the
  execution record.
\<close>

theorem executeWorkflow_workflow_unchanged:
  assumes "every_processor leaves_workflow eng"
  shows "st_workflow (executeWorkflow env eng workflow td) = workflow"
proof -
  let ?s0 = "\<lparr> st_workflow = workflow,
               st_execution = \<lparr> exec_id = new_exec_id env, exec_workflowId = wf_id workflow,
                 exec_status = Running, exec_startTime = clock env 0, exec_endTime = None,
                 triggerData = td, nodeExecutions = [], exec_error = None \<rparr>,
               st_tick = 1 \<rparr>"
  have "st_workflow (snd (run_order env eng (getExecutionOrder workflow) ?s0)) = workflow"
    using run_order_workflow[OF assms, of env "getExecutionOrder workflow" ?s0] by simp
  with try_body_run_order[of env eng ?s0]
  have "st_workflow (snd (try_body env eng ?s0)) = workflow" by auto
  then show ?thesis by (simp only: executeWorkflow_try_body(2))
qed

theorem executeWorkflow_workflow_unchanged_witness:
  "every_processor leaves_workflow chain_engine
   \<and> st_workflow (executeWorkflow env0 chain_engine (upstream_workflow Continue) None)
       = upstream_workflow Continue"
proof -
  have h: "every_processor leaves_workflow chain_engine"
    by (auto simp: every_processor_def leaves_workflow_def chain_engine_def ok_processor_def
        failing_processor_def quiet_run_def split: if_splits)
  from h executeWorkflow_workflow_unchanged [OF h, of env0 "upstream_workflow Continue" None]
  show ?thesis by (intro conjI)
qed

text \<open>
  The claim as it was stated, for every processor, fails: a processor is built on a node
  object of the workflow and can write to it. With a processor for the trigger that
  switches its node off, the workflow after the run is not the workflow before it.
\<close>

theorem executeWorkflow_processor_changes_workflow:
  "map enabled (nodes (lone_trigger_workflow Stop)) = [True]
   \<and> map enabled (nodes (st_workflow
        (executeWorkflow env0 disabling_engine (lone_trigger_workflow Stop) None))) = [False]
   \<and> st_workflow (executeWorkflow env0 disabling_engine (lone_trigger_workflow Stop) None)
       \<noteq> lone_trigger_workflow Stop"
proof -
  have a: "map enabled (nodes (lone_trigger_workflow Stop)) = [True]"
    by (simp add: example_defs)
  have b: "map enabled (nodes (st_workflow
        (executeWorkflow env0 disabling_engine (lone_trigger_workflow Stop) None))) = [False]"
    by (simp add: engine_defs object_defs example_defs visit.simps)
  from a b have "st_workflow (executeWorkflow env0 disabling_engine (lone_trigger_workflow Stop) None)
       \<noteq> lone_trigger_workflow Stop" by (metis list.inject)
  with a b show ?thesis by (intro conjI)
qed




text \<open>
  Claim C1, on the code. With \<open>T \<rightarrow> A \<rightarrow> B\<close>, error handling \<open>stop\<close> and a processor for
  \<open>A\<close> that always throws, the order that is computed holds \<open>T\<close> alone, so the run
  attempts \<open>T\<close> only: the execution it returns has one context, that of \<open>T\<close>, completed,
  and its overall status is \<open>completed\<close> with no error. \<open>A\<close> is never attempted.
\<close>

theorem executeWorkflow_chain_stop:
  "getExecutionOrder (chain_workflow Stop) = [''T'']
   \<and> map nodeId (nodeExecutions (st_execution
         (executeWorkflow env chain_engine (chain_workflow Stop) td))) = [''T'']
   \<and> map status (nodeExecutions (st_execution
         (executeWorkflow env chain_engine (chain_workflow Stop) td))) = [Completed]
   \<and> exec_status (st_execution
         (executeWorkflow env chain_engine (chain_workflow Stop) td)) = Completed
   \<and> exec_error (st_execution
         (executeWorkflow env chain_engine (chain_workflow Stop) td)) = None"
  by (simp add: executeWorkflow_def try_body_def Let_def new_context_def processor_for_def
      push_context_def after_call_def stop_run_def getExecutionOrder_def
      case_getNodeInputData_no_incoming example_defs visit.simps)

text \<open>
  Claim C2, on the code. A single trigger whose processor throws: under \<open>stop\<close> the
  context that was built for it and handed to its processor is not in \<open>nodeExecutions\<close>
  (the loop is left before the \<open>push\<close>), while the error of the execution names the
  node; under \<open>continue\<close> the same failed context is recorded.
\<close>

theorem executeWorkflow_stop_drops_failed_context:
  "nodeExecutions (st_execution
       (executeWorkflow env failing_trigger_engine (lone_trigger_workflow Stop) td)) = []
   \<and> exec_status (st_execution
       (executeWorkflow env failing_trigger_engine (lone_trigger_workflow Stop) td)) = Failed
   \<and> exec_error (st_execution
       (executeWorkflow env failing_trigger_engine (lone_trigger_workflow Stop) td))
       = Some ''Node T failed: boom''
   \<and> map nodeId (nodeExecutions (st_execution
       (executeWorkflow env failing_trigger_engine (lone_trigger_workflow Continue) td))) = [''T'']
   \<and> map status (nodeExecutions (st_execution
       (executeWorkflow env failing_trigger_engine (lone_trigger_workflow Continue) td))) = [Failed]"
  by (simp add: executeWorkflow_def try_body_def Let_def new_context_def processor_for_def
      push_context_def after_call_def stop_run_def getExecutionOrder_def
      case_getNodeInputData_no_incoming example_defs visit.simps)

section \<open>Properties of the scheduler\<close>

lemma appears_before_iff:
  "appears_before a b xs \<longleftrightarrow> (\<exists>us vs. xs = us @ a # vs \<and> a \<notin> set us \<and> b \<in> set vs)"
proof
  assume ab: "appears_before a b xs"
  then have "drop 1 (dropWhile (\<lambda>x. x \<noteq> a) xs) \<noteq> []"
    unfolding appears_before_def by (metis empty_iff empty_set)
  then have ne: "dropWhile (\<lambda>x. x \<noteq> a) xs \<noteq> []"
    by (cases "dropWhile (\<lambda>x. x \<noteq> a) xs") simp_all
  then obtain vs where vs: "dropWhile (\<lambda>x. x \<noteq> a) xs = a # vs"
    using hd_dropWhile[of "\<lambda>x. x \<noteq> a" xs] by (cases "dropWhile (\<lambda>x. x \<noteq> a) xs") auto
  have "xs = takeWhile (\<lambda>x. x \<noteq> a) xs @ a # vs"
    using takeWhile_dropWhile_id[of "\<lambda>x. x \<noteq> a" xs] vs by simp
  moreover have "a \<notin> set (takeWhile (\<lambda>x. x \<noteq> a) xs)"
    using set_takeWhileD by fastforce
  moreover have "b \<in> set vs" using ab vs by (simp add: appears_before_def)
  ultimately show "\<exists>us vs. xs = us @ a # vs \<and> a \<notin> set us \<and> b \<in> set vs" by blast
next
  assume "\<exists>us vs. xs = us @ a # vs \<and> a \<notin> set us \<and> b \<in> set vs"
  then obtain us vs where xs: "xs = us @ a # vs" and us: "a \<notin> set us" and vs: "b \<in> set vs" by blast
  have "dropWhile (\<lambda>x. x \<noteq> a) xs = a # vs"
    unfolding xs using us by (simp add: dropWhile_append)
  then show "appears_before a b xs" using vs by (simp add: appears_before_def)
qed

lemma appears_before_append: "appears_before a b xs \<Longrightarrow> appears_before a b (xs @ ys)"
proof -
  assume "appears_before a b xs"
  then obtain us vs where "xs = us @ a # vs" "a \<notin> set us" "b \<in> set vs"
    unfolding appears_before_iff by blast
  then have "xs @ ys = us @ a # (vs @ ys) \<and> a \<notin> set us \<and> b \<in> set (vs @ ys)" by simp
  then show ?thesis unfolding appears_before_iff by blast
qed

lemma appears_before_snoc: "a \<in> set xs \<Longrightarrow> appears_before a b (xs @ [b])"
proof -
  assume "a \<in> set xs"
  then obtain us vs where "xs = us @ a # vs" "a \<notin> set us"
    by (meson split_list_first)
  then have "xs @ [b] = us @ a # (vs @ [b]) \<and> a \<notin> set us \<and> b \<in> set (vs @ [b])" by simp
  then show ?thesis unfolding appears_before_iff by blast
qed

lemma deps_edges:
  "set (map sourceNodeId (filter (\<lambda>conn. targetNodeId conn = n) cs)) = {a. (a, n) \<in> edges cs}"
  by (auto simp: edges_def)

lemma visit_step:
  assumes nv: "nid \<notin> vis"
    and pre: "dfs_pre cs {nid} (vis, ord)"
    and post: "dfs_post cs {a. (a, nid) \<in> edges cs} (insert nid vis, ord) (vis', ord')"
  shows "dfs_post cs {nid} (vis, ord) (vis', ord' @ [nid])"
proof -
  from pre have ord_vis: "set ord \<subseteq> vis" and stack: "\<forall>s \<in> vis - set ord. (nid, s) \<in> (edges cs)\<^sup>*"
    by (auto simp: dfs_pre_def)
  from post have sub: "insert nid vis \<subseteq> vis'" and deps: "{a. (a, nid) \<in> edges cs} \<subseteq> vis'"
    and stk: "vis' - set ord' = insert nid vis - set ord" and ov: "set ord' \<subseteq> vis'"
    and dist: "distinct ord'" and ordd: "ordered cs ord'"
    and closed: "\<forall>b \<in> set ord'. \<forall>a. (a, b) \<in> edges cs \<longrightarrow> a \<in> vis'"
    by (auto simp: dfs_post_def)
  from post obtain new where new: "ord' = ord @ new"
    and reach: "\<forall>x \<in> set new. \<exists>t \<in> {a. (a, nid) \<in> edges cs}. (x, t) \<in> (edges cs)\<^sup>*"
    by (auto simp: dfs_post_def)
  have n_ord: "nid \<notin> set ord" using nv ord_vis by auto
  have n_ord': "nid \<notin> set ord'" using stk n_ord by auto
  have a1: "vis \<subseteq> vis'" "{nid} \<subseteq> vis'" using sub by auto
  have a2: "vis' - set (ord' @ [nid]) = vis - set ord" using stk nv n_ord by auto
  have a3: "set (ord' @ [nid]) \<subseteq> vis'" using ov sub by auto
  have a4: "distinct (ord' @ [nid])" using dist n_ord' by simp
  have a5: "ordered cs (ord' @ [nid])"
    unfolding ordered_def
  proof (intro ballI allI impI)
    fix b a assume b: "b \<in> set (ord' @ [nid])" and e: "(a, b) \<in> edges cs"
    show "appears_before a b (ord' @ [nid]) \<or> (b, a) \<in> (edges cs)\<^sup>*"
    proof (cases "b = nid")
      case False
      then have "b \<in> set ord'" using b by simp
      with ordd e have "appears_before a b ord' \<or> (b, a) \<in> (edges cs)\<^sup>*"
        by (auto simp: ordered_def)
      then show ?thesis by (auto intro: appears_before_append)
    next
      case True
      then have "a \<in> vis'" using deps e by auto
      show ?thesis
      proof (cases "a \<in> set ord'")
        case True
        then show ?thesis using appears_before_snoc[of a ord' nid] \<open>b = nid\<close> by simp
      next
        case False
        then have "a \<in> insert nid vis - set ord" using stk \<open>a \<in> vis'\<close> by auto
        then have "(nid, a) \<in> (edges cs)\<^sup>*" using stack by auto
        then show ?thesis using \<open>b = nid\<close> by simp
      qed
    qed
  qed
  have a6: "\<forall>b \<in> set (ord' @ [nid]). \<forall>a. (a, b) \<in> edges cs \<longrightarrow> a \<in> vis'"
    using closed deps by auto
  have a7: "ord' @ [nid] = ord @ (new @ [nid])" using new by simp
  have a8: "\<forall>x \<in> set (new @ [nid]). \<exists>t \<in> {nid}. (x, t) \<in> (edges cs)\<^sup>*"
  proof
    fix x assume "x \<in> set (new @ [nid])"
    then consider "x = nid" | "x \<in> set new" by auto
    then show "\<exists>t \<in> {nid}. (x, t) \<in> (edges cs)\<^sup>*"
    proof cases
      case 1 then show ?thesis by simp
    next
      case 2
      with reach obtain t where "(t, nid) \<in> edges cs" "(x, t) \<in> (edges cs)\<^sup>*" by auto
      then show ?thesis by (auto intro: rtrancl_into_rtrancl)
    qed
  qed
  show ?thesis
    unfolding dfs_post_def prod.case
    by (intro conjI exI[of _ "new @ [nid]"] a1 a2 a3 a4 a5 a6 a7 a8)
qed

lemma visit_pre_deps:
  assumes nv: "nid \<notin> vis" and pre: "dfs_pre cs {nid} (vis, ord)"
  shows "dfs_pre cs {a. (a, nid) \<in> edges cs} (insert nid vis, ord)"
proof -
  from pre have ord_vis: "set ord \<subseteq> vis" and stack: "\<forall>s \<in> vis - set ord. (nid, s) \<in> (edges cs)\<^sup>*"
    and rest: "distinct ord" "ordered cs ord" "\<forall>b \<in> set ord. \<forall>a. (a, b) \<in> edges cs \<longrightarrow> a \<in> vis"
    by (auto simp: dfs_pre_def)
  have "\<forall>t \<in> {a. (a, nid) \<in> edges cs}. \<forall>s \<in> insert nid vis - set ord. (t, s) \<in> (edges cs)\<^sup>*"
  proof (intro ballI)
    fix t s assume t: "t \<in> {a. (a, nid) \<in> edges cs}" and s: "s \<in> insert nid vis - set ord"
    from t have e: "(t, nid) \<in> (edges cs)\<^sup>*" by auto
    from s consider "s = nid" | "s \<in> vis - set ord" by auto
    then show "(t, s) \<in> (edges cs)\<^sup>*"
    proof cases
      case 1 then show ?thesis using e by simp
    next
      case 2 then show ?thesis using e stack by (meson rtrancl_trans)
    qed
  qed
  moreover have "set ord \<subseteq> insert nid vis" using ord_vis by auto
  moreover have "\<forall>b \<in> set ord. \<forall>a. (a, b) \<in> edges cs \<longrightarrow> a \<in> insert nid vis" using rest(3) by auto
  ultimately show ?thesis unfolding dfs_pre_def prod.case using rest(1,2) by (intro conjI)
qed

lemma dfs_pre_mono: "tgts' \<subseteq> tgts \<Longrightarrow> dfs_pre cs tgts st \<Longrightarrow> dfs_pre cs tgts' st"
  unfolding dfs_pre_def by (cases st) (simp only: prod.case, blast)

lemma dfs_post_same:
  assumes "dfs_pre cs tgts0 (vis, ord)" and "tgts \<subseteq> vis"
  shows "dfs_post cs tgts (vis, ord) (vis, ord)"
proof -
  have "ord = ord @ [] \<and> (\<forall>x \<in> set []. \<exists>t \<in> tgts. (x, t) \<in> (edges cs)\<^sup>*)" by simp
  then have "\<exists>new. ord = ord @ new \<and> (\<forall>x \<in> set new. \<exists>t \<in> tgts. (x, t) \<in> (edges cs)\<^sup>*)" by blast
  then show ?thesis using assms unfolding dfs_post_def dfs_pre_def prod.case by simp
qed

lemma dfs_pre_after:
  assumes "dfs_pre cs tgts st" and "dfs_post cs tgts1 st st1"
  shows "dfs_pre cs tgts st1"
proof -
  obtain vis ord where st: "st = (vis, ord)" by (cases st)
  obtain vis1 ord1 where st1: "st1 = (vis1, ord1)" by (cases st1)
  from assms(1) have stack: "\<forall>t \<in> tgts. \<forall>s \<in> vis - set ord. (t, s) \<in> (edges cs)\<^sup>*"
    unfolding st dfs_pre_def by simp
  from assms(2) have p: "vis1 - set ord1 = vis - set ord" "set ord1 \<subseteq> vis1" "distinct ord1"
    "ordered cs ord1" "\<forall>b \<in> set ord1. \<forall>a. (a, b) \<in> edges cs \<longrightarrow> a \<in> vis1"
    unfolding st st1 dfs_post_def by simp_all
  from stack p(1) have "\<forall>t \<in> tgts. \<forall>s \<in> vis1 - set ord1. (t, s) \<in> (edges cs)\<^sup>*" by simp
  then show ?thesis unfolding st1 dfs_pre_def prod.case using p(2-5) by (intro conjI)
qed

lemma dfs_post_trans:
  assumes "dfs_post cs tgts1 st st1" and "dfs_post cs tgts2 st1 st2"
  shows "dfs_post cs (tgts1 \<union> tgts2) st st2"
proof -
  obtain vis ord where st: "st = (vis, ord)" by (cases st)
  obtain vis1 ord1 where st1: "st1 = (vis1, ord1)" by (cases st1)
  obtain vis2 ord2 where st2: "st2 = (vis2, ord2)" by (cases st2)
  from assms(1) have p: "vis \<subseteq> vis1" "tgts1 \<subseteq> vis1" "vis1 - set ord1 = vis - set ord"
    unfolding st st1 dfs_post_def by simp_all
  from assms(1) obtain new1 where n1: "ord1 = ord @ new1"
    "\<forall>x \<in> set new1. \<exists>t \<in> tgts1. (x, t) \<in> (edges cs)\<^sup>*"
    unfolding st st1 dfs_post_def by auto
  from assms(2) have q: "vis1 \<subseteq> vis2" "tgts2 \<subseteq> vis2" "vis2 - set ord2 = vis1 - set ord1"
    "set ord2 \<subseteq> vis2" "distinct ord2" "ordered cs ord2"
    "\<forall>b \<in> set ord2. \<forall>a. (a, b) \<in> edges cs \<longrightarrow> a \<in> vis2"
    unfolding st1 st2 dfs_post_def by simp_all
  from assms(2) obtain new2 where n2: "ord2 = ord1 @ new2"
    "\<forall>x \<in> set new2. \<exists>t \<in> tgts2. (x, t) \<in> (edges cs)\<^sup>*"
    unfolding st1 st2 dfs_post_def by auto
  have r1: "vis \<subseteq> vis2" using p(1) q(1) by auto
  have r2: "tgts1 \<union> tgts2 \<subseteq> vis2" using p(2) q(1,2) by auto
  have r3: "vis2 - set ord2 = vis - set ord" using p(3) q(3) by simp
  have r4: "ord2 = ord @ (new1 @ new2)" using n1(1) n2(1) by simp
  have r5: "\<forall>x \<in> set (new1 @ new2). \<exists>t \<in> tgts1 \<union> tgts2. (x, t) \<in> (edges cs)\<^sup>*"
    using n1(2) n2(2) by auto
  show ?thesis unfolding st st2 dfs_post_def prod.case
    by (intro conjI exI[of _ "new1 @ new2"] r1 r2 r3 r4 r5 q(4-7))
qed

lemma dfs_correct:
  "dfs_pre cs {n} st \<Longrightarrow> dfs_post cs {n} st (visit cs n st)"
  "dfs_pre cs (set ds) st \<Longrightarrow> dfs_post cs (set ds) st (forEach_visit cs ds st)"
proof (induction cs n st and cs ds st rule: visit_forEach_visit.induct)
  case (1 cs nid visited order)
  show ?case
  proof (cases "nid \<in> visited")
    case True
    then show ?thesis using "1.prems" dfs_post_same[of cs "{nid}" visited order "{nid}"]
      by (simp add: visit.simps)
  next
    case False
    let ?deps = "map sourceNodeId (filter (\<lambda>conn. targetNodeId conn = nid) cs)"
    obtain vis' ord' where r: "forEach_visit cs ?deps (insert nid visited, order) = (vis', ord')"
      by (cases "forEach_visit cs ?deps (insert nid visited, order)")
    have "dfs_pre cs (set ?deps) (insert nid visited, order)"
      using visit_pre_deps[OF False "1.prems"] by (simp only: deps_edges)
    then have "dfs_post cs (set ?deps) (insert nid visited, order) (vis', ord')"
      using "1.IH"[OF False refl] r by simp
    then have "dfs_post cs {a. (a, nid) \<in> edges cs} (insert nid visited, order) (vis', ord')"
      by (simp only: deps_edges)
    from visit_step[OF False "1.prems" this] show ?thesis
      using False r by (simp add: visit.simps)
  qed
next
  case (2 cs st)
  obtain vis ord where st: "st = (vis, ord)" by (cases st)
  show ?case using 2 dfs_post_same[of cs "{}" vis ord "{}"] unfolding st by simp
next
  case (3 cs d ds st)
  have pre_d: "dfs_pre cs {d} st" using "3.prems" by (rule dfs_pre_mono[rotated]) simp
  have post_d: "dfs_post cs {d} st (visit cs d st)" using "3.IH"(1)[OF pre_d] .
  have "dfs_pre cs (set ds) st" using "3.prems" by (rule dfs_pre_mono[rotated]) auto
  then have "dfs_pre cs (set ds) (visit cs d st)" using post_d by (rule dfs_pre_after)
  then have "dfs_post cs (set ds) (visit cs d st) (forEach_visit cs ds (visit cs d st))"
    by (rule "3.IH"(2))
  from dfs_post_trans[OF post_d this] show ?case by simp
qed

lemma getExecutionOrder_post:
  "dfs_post (connections workflow) (set (trigger_ids workflow)) ({}, [])
     (forEach_visit (connections workflow) (trigger_ids workflow) ({}, []))"
  by (rule dfs_correct(2)) (simp add: dfs_pre_def ordered_def)

lemma getExecutionOrder_alt:
  "getExecutionOrder workflow = snd (forEach_visit (connections workflow) (trigger_ids workflow) ({}, []))"
  by (simp add: getExecutionOrder_def trigger_ids_def)

lemma getExecutionOrder_facts:
  "distinct (getExecutionOrder workflow)"
  "ordered (connections workflow) (getExecutionOrder workflow)"
  "set (trigger_ids workflow) \<subseteq> set (getExecutionOrder workflow)"
  "\<forall>b \<in> set (getExecutionOrder workflow). \<forall>a. (a, b) \<in> edges (connections workflow)
       \<longrightarrow> a \<in> set (getExecutionOrder workflow)"
  "\<forall>x \<in> set (getExecutionOrder workflow). \<exists>t \<in> set (trigger_ids workflow).
       (x, t) \<in> (edges (connections workflow))\<^sup>*"
proof -
  obtain vis' ord' where r:
    "forEach_visit (connections workflow) (trigger_ids workflow) ({}, []) = (vis', ord')"
    by (cases "forEach_visit (connections workflow) (trigger_ids workflow) ({}, [])")
  have o: "getExecutionOrder workflow = ord'" by (simp add: getExecutionOrder_alt r)
  from getExecutionOrder_post[of workflow] have
    p: "set (trigger_ids workflow) \<subseteq> vis'" "vis' - set ord' = {}" "set ord' \<subseteq> vis'" "distinct ord'"
       "ordered (connections workflow) ord'"
       "\<forall>b \<in> set ord'. \<forall>a. (a, b) \<in> edges (connections workflow) \<longrightarrow> a \<in> vis'"
       "\<exists>new. ord' = [] @ new \<and> (\<forall>x \<in> set new. \<exists>t \<in> set (trigger_ids workflow).
            (x, t) \<in> (edges (connections workflow))\<^sup>*)"
    unfolding r dfs_post_def prod.case by simp_all
  have eq: "vis' = set ord'" using p(2,3) by auto
  show "distinct (getExecutionOrder workflow)" using p(4) o by simp
  show "ordered (connections workflow) (getExecutionOrder workflow)" using p(5) o by simp
  show "set (trigger_ids workflow) \<subseteq> set (getExecutionOrder workflow)" using p(1) eq o by simp
  show "\<forall>b \<in> set (getExecutionOrder workflow). \<forall>a. (a, b) \<in> edges (connections workflow)
       \<longrightarrow> a \<in> set (getExecutionOrder workflow)" using p(6) eq o by simp
  show "\<forall>x \<in> set (getExecutionOrder workflow). \<exists>t \<in> set (trigger_ids workflow).
       (x, t) \<in> (edges (connections workflow))\<^sup>*" using p(7) o by simp
qed

lemma visit_in_domain:
  "visit_forEach_visit_dom (Inl (cs, n, st))"
  "visit_forEach_visit_dom (Inr (cs, ds, st))"
proof (induction cs n st and cs ds st rule: visit_forEach_visit.induct)
  case (1 cs nid visited order)
  then show ?case by (intro visit_forEach_visit.domintros) simp
next
  case (2 cs st)
  show ?case by (rule visit_forEach_visit.domintros)
next
  case (3 cs d ds st)
  then show ?case by (intro visit_forEach_visit.domintros)
qed

text \<open>
  Claim C7. \<open>getExecutionOrder\<close> returns for every workflow, with no condition on its
  connections (cyclic, disconnected, naming ids that no node has): the call it makes lies
  in the part of the call graph of \<open>visit\<close> on which the recursion is well founded. And
  the order it returns holds no id twice, since \<open>visited\<close> turns a second visit of an id
  into an immediate return; on a cycle the search therefore stops short instead of
  running on.
\<close>

theorem getExecutionOrder_returns:
  "visit_forEach_visit_dom (Inr (connections workflow, trigger_ids workflow, ({}, [])))
   \<and> distinct (getExecutionOrder workflow)"
  using visit_in_domain(2) getExecutionOrder_facts(1) by (intro conjI)

theorem getExecutionOrder_returns_witness:
  "getExecutionOrder cyclic_workflow = [''X'', ''T'']
   \<and> visit_forEach_visit_dom
        (Inr (connections cyclic_workflow, trigger_ids cyclic_workflow, ({}, [])))
   \<and> distinct (getExecutionOrder cyclic_workflow)"
proof -
  have "getExecutionOrder cyclic_workflow = [''X'', ''T'']"
    by (simp add: getExecutionOrder_def example_defs visit.simps)
  with getExecutionOrder_returns [of cyclic_workflow] show ?thesis by (intro conjI) simp_all
qed

text \<open>
  Claim C4, on the code. In the acyclic workflow \<open>T \<rightarrow> A \<rightarrow> B\<close> every node is
  reached from the trigger \<open>T\<close> along connections, but the search walks from \<open>T\<close> to the
  sources of the connections into it, of which there are none: the order is \<open>T\<close> alone.
  Neither for \<open>T \<rightarrow> A\<close> nor for \<open>A \<rightarrow> B\<close> does the source appear before the target,
  since \<open>A\<close> and \<open>B\<close> do not appear at all.
\<close>

theorem getExecutionOrder_chain_omits_downstream:
  "mk_conn ''T'' ''out'' ''A'' ''in'' \<in> set (connections (chain_workflow eh))
   \<and> mk_conn ''A'' ''out'' ''B'' ''in'' \<in> set (connections (chain_workflow eh))
   \<and> ''T'' \<in> set (trigger_ids (chain_workflow eh))
   \<and> (''T'', ''T'') \<in> (edges (connections (chain_workflow eh)))\<^sup>*
   \<and> (''T'', ''A'') \<in> (edges (connections (chain_workflow eh)))\<^sup>*
   \<and> (''T'', ''B'') \<in> (edges (connections (chain_workflow eh)))\<^sup>*
   \<and> getExecutionOrder (chain_workflow eh) = [''T'']
   \<and> \<not> appears_before ''T'' ''A'' (getExecutionOrder (chain_workflow eh))
   \<and> \<not> appears_before ''A'' ''B'' (getExecutionOrder (chain_workflow eh))"
proof -
  have e: "edges (connections (chain_workflow eh)) = {(''T'', ''A''), (''A'', ''B'')}"
    by (simp add: edges_def example_defs)
  have o: "getExecutionOrder (chain_workflow eh) = [''T'']"
    by (simp add: getExecutionOrder_def example_defs visit.simps)
  have c1: "mk_conn ''T'' ''out'' ''A'' ''in'' \<in> set (connections (chain_workflow eh))"
    by (simp add: example_defs)
  have c2: "mk_conn ''A'' ''out'' ''B'' ''in'' \<in> set (connections (chain_workflow eh))"
    by (simp add: example_defs)
  have t: "''T'' \<in> set (trigger_ids (chain_workflow eh))"
    by (simp add: trigger_ids_def example_defs)
  have r0: "(''T'', ''T'') \<in> (edges (connections (chain_workflow eh)))\<^sup>*" by simp
  have r1: "(''T'', ''A'') \<in> (edges (connections (chain_workflow eh)))\<^sup>*"
    unfolding e by (rule r_into_rtrancl) simp
  have "(''A'', ''B'') \<in> edges (connections (chain_workflow eh))" unfolding e by simp
  with r1 have r2: "(''T'', ''B'') \<in> (edges (connections (chain_workflow eh)))\<^sup>*"
    by (rule rtrancl_into_rtrancl)
  have n1: "\<not> appears_before ''T'' ''A'' (getExecutionOrder (chain_workflow eh))"
    unfolding o by (simp add: appears_before_def)
  have n2: "\<not> appears_before ''A'' ''B'' (getExecutionOrder (chain_workflow eh))"
    unfolding o by (simp add: appears_before_def)
  from c1 c2 t r0 r1 r2 o n1 n2 show ?thesis by (intro conjI)
qed

section \<open>Properties of the validator\<close>

lemma succs_edges:
  "set (map targetNodeId (filter (\<lambda>conn. sourceNodeId conn = n) cs)) = {b. (n, b) \<in> edges cs}"
  by (auto simp: edges_def)

lemma closed_rtrancl:
  assumes "\<forall>b \<in> B. \<forall>s. (b, s) \<in> E \<longrightarrow> s \<in> B" and "(x, y) \<in> E\<^sup>*" and "x \<in> B"
  shows "y \<in> B"
  using assms(2,3,1) by (induction rule: rtrancl_induct) auto

lemma cycle_inv_enter:
  assumes "cycle_inv cs (vis, stk)" and "n \<notin> vis"
  shows "cycle_inv cs (insert n vis, insert n stk)"
proof -
  from assms(1) have sub: "stk \<subseteq> vis"
    and closed: "\<forall>b \<in> vis - stk. \<forall>s. (b, s) \<in> edges cs \<longrightarrow> s \<in> vis - stk"
    and acyc: "\<forall>b \<in> vis - stk. (b, b) \<notin> (edges cs)\<^sup>+"
    unfolding cycle_inv_def prod.case by blast+
  have eq: "insert n vis - insert n stk = vis - stk" using assms(2) by blast
  have c1: "insert n stk \<subseteq> insert n vis" using sub by blast
  show ?thesis unfolding cycle_inv_def prod.case eq by (intro conjI c1 closed acyc)
qed

lemma cycle_inv_leave:
  assumes inv: "cycle_inv cs (vis', insert n stk)"
    and n: "n \<notin> stk" "n \<in> vis'"
    and succs: "{b. (n, b) \<in> edges cs} \<subseteq> vis' - insert n stk"
  shows "cycle_inv cs (vis', stk)"
proof -
  let ?B = "vis' - insert n stk"
  from inv have sub: "insert n stk \<subseteq> vis'"
    and closed: "\<forall>b \<in> ?B. \<forall>s. (b, s) \<in> edges cs \<longrightarrow> s \<in> ?B"
    and acyc: "\<forall>b \<in> ?B. (b, b) \<notin> (edges cs)\<^sup>+"
    unfolding cycle_inv_def prod.case by blast+
  have black: "vis' - stk = insert n ?B" using n by auto
  have c1: "stk \<subseteq> vis'" using sub by auto
  have c2: "\<forall>b \<in> vis' - stk. \<forall>s. (b, s) \<in> edges cs \<longrightarrow> s \<in> vis' - stk"
    unfolding black using closed succs by blast
  have nn: "(n, n) \<notin> (edges cs)\<^sup>+"
  proof
    assume "(n, n) \<in> (edges cs)\<^sup>+"
    then obtain s where s: "(n, s) \<in> edges cs" "(s, n) \<in> (edges cs)\<^sup>*"
      by (meson tranclD)
    from s(1) succs have "s \<in> ?B" by auto
    from closed_rtrancl[OF closed s(2) this] show False by simp
  qed
  have c3: "\<forall>b \<in> vis' - stk. (b, b) \<notin> (edges cs)\<^sup>+"
    unfolding black using acyc nn by blast
  show ?thesis unfolding cycle_inv_def prod.case by (intro conjI c1 c2 c3)
qed

lemma hasCycle_false:
  "cycle_inv cs st \<Longrightarrow> hasCycle cs n st = (False, st') \<Longrightarrow>
     cycle_inv cs st' \<and> snd st' = snd st \<and> fst st \<subseteq> fst st' \<and> n \<in> fst st' - snd st"
  "cycle_inv cs st \<Longrightarrow> hasCycle_deps cs ds st = (False, st') \<Longrightarrow>
     cycle_inv cs st' \<and> snd st' = snd st \<and> fst st \<subseteq> fst st' \<and> set ds \<subseteq> fst st' - snd st"
proof (induction cs n st and cs ds st arbitrary: st' and st' rule: hasCycle_hasCycle_deps.induct)
  case (1 cs nid visited recursionStack)
  note inv = "1.prems"(1) and res = "1.prems"(2)
  show ?case
  proof (cases "nid \<in> recursionStack")
    case True
    with res show ?thesis by (simp add: hasCycle.simps)
  next
    case ns: False
    show ?thesis
    proof (cases "nid \<in> visited")
      case True
      with ns res inv show ?thesis by (auto simp add: hasCycle.simps)
    next
      case nv: False
      let ?deps = "map targetNodeId (filter (\<lambda>conn. sourceNodeId conn = nid) cs)"
      obtain found vis1 stk1 where
        r: "hasCycle_deps cs ?deps (insert nid visited, insert nid recursionStack) = (found, vis1, stk1)"
        by (cases "hasCycle_deps cs ?deps (insert nid visited, insert nid recursionStack)")
      from res ns nv r have nf: "\<not> found" and st': "st' = (vis1, stk1 - {nid})"
        by (auto simp add: hasCycle.simps split: if_splits)
      have inv1: "cycle_inv cs (insert nid visited, insert nid recursionStack)"
        using cycle_inv_enter[OF inv nv] .
      from "1.IH"[OF ns nv refl inv1, of "(vis1, stk1)"] r nf
      have ih: "cycle_inv cs (vis1, stk1)" "stk1 = insert nid recursionStack"
        "insert nid visited \<subseteq> vis1" "set ?deps \<subseteq> vis1 - insert nid recursionStack"
        by auto
      have stk: "stk1 - {nid} = recursionStack" using ih(2) ns by auto
      have "cycle_inv cs (vis1, recursionStack)"
      proof (rule cycle_inv_leave)
        show "cycle_inv cs (vis1, insert nid recursionStack)" using ih(1,2) by simp
        show "nid \<notin> recursionStack" by (rule ns)
        show "nid \<in> vis1" using ih(3) by auto
        show "{b. (nid, b) \<in> edges cs} \<subseteq> vis1 - insert nid recursionStack"
          using ih(4) by (simp only: succs_edges)
      qed
      then show ?thesis unfolding st' stk using ih(3) ns by auto
    qed
  qed
next
  case (2 cs st)
  then show ?case by simp
next
  case (3 cs depNodeId ds st)
  note inv = "3.prems"(1) and res = "3.prems"(2)
  obtain found st1 where r: "hasCycle cs depNodeId st = (found, st1)"
    by (cases "hasCycle cs depNodeId st")
  from res r have nf: "found = False" and r2: "hasCycle_deps cs ds st1 = (False, st')"
    by (auto split: bool.splits)
  from "3.IH"(1)[OF inv, of st1] r nf
  have a: "cycle_inv cs st1" "snd st1 = snd st" "fst st \<subseteq> fst st1" "depNodeId \<in> fst st1 - snd st"
    by auto
  from "3.IH"(2)[OF r[symmetric] nf a(1) r2]
  have b: "cycle_inv cs st'" "snd st' = snd st1" "fst st1 \<subseteq> fst st'" "set ds \<subseteq> fst st' - snd st1"
    by auto
  show ?case using a b by auto
qed

lemma hasCycle_nodes_false:
  "cycle_inv cs st \<Longrightarrow> hasCycle_nodes cs ns st = False \<Longrightarrow>
     \<exists>vis'. cycle_inv cs (vis', snd st) \<and> fst st \<subseteq> vis' \<and> node_id ` set ns \<subseteq> vis' - snd st"
proof (induction ns arbitrary: st)
  case Nil
  then show ?case by (cases st) auto
next
  case (Cons node rest)
  obtain found st1 where r: "hasCycle cs (node_id node) st = (found, st1)"
    by (cases "hasCycle cs (node_id node) st")
  from Cons.prems(2) r have nf: "found = False" and r2: "hasCycle_nodes cs rest st1 = False"
    by (auto split: bool.splits)
  from hasCycle_false(1)[OF Cons.prems(1), of "node_id node" st1] r nf
  have a: "cycle_inv cs st1" "snd st1 = snd st" "fst st \<subseteq> fst st1" "node_id node \<in> fst st1 - snd st"
    by auto
  from Cons.IH[OF a(1) r2] obtain vis' where
    b: "cycle_inv cs (vis', snd st1)" "fst st1 \<subseteq> vis'" "node_id ` set rest \<subseteq> vis' - snd st1"
    by blast
  have "cycle_inv cs (vis', snd st) \<and> fst st \<subseteq> vis' \<and> node_id ` set (node # rest) \<subseteq> vis' - snd st"
    using a b by auto
  then show ?case by blast
qed

lemma hasCircularDependencies_complete:
  assumes root: "root \<in> set (nodes workflow)"
    and reach: "(node_id root, n) \<in> (edges (connections workflow))\<^sup>*"
    and cyc: "(n, n) \<in> (edges (connections workflow))\<^sup>+"
  shows "hasCircularDependencies workflow"
proof (rule ccontr)
  assume "\<not> hasCircularDependencies workflow"
  then have f: "hasCycle_nodes (connections workflow) (nodes workflow) ({}, {}) = False"
    by (simp add: hasCircularDependencies_def)
  have "cycle_inv (connections workflow) ({}, {})" by (simp add: cycle_inv_def)
  from hasCycle_nodes_false[OF this f] obtain B where
    B: "cycle_inv (connections workflow) (B, {})" "node_id ` set (nodes workflow) \<subseteq> B"
    by auto
  from B(1) have closed: "\<forall>b \<in> B. \<forall>s. (b, s) \<in> edges (connections workflow) \<longrightarrow> s \<in> B"
    and acyc: "\<forall>b \<in> B. (b, b) \<notin> (edges (connections workflow))\<^sup>+"
    by (auto simp: cycle_inv_def)
  have "node_id root \<in> B" using root B(2) by auto
  from closed_rtrancl[OF closed reach this] have "n \<in> B" .
  with acyc cyc show False by blast
qed

lemma foldl_check_connection_keeps:
  "set errs \<subseteq> set (foldl (check_connection workflow) errs cs)"
proof (induction cs arbitrary: errs)
  case Nil
  show ?case by simp
next
  case (Cons c cs)
  have "set errs \<subseteq> set (check_connection workflow errs c)"
    by (auto simp: check_connection_def Let_def)
  also have "\<dots> \<subseteq> set (foldl (check_connection workflow) (check_connection workflow errs c) cs)"
    by (rule Cons.IH)
  finally show ?case by simp
qed

lemma validateWorkflow_circular:
  assumes "hasCircularDependencies workflow"
  shows "\<not> isValid (validateWorkflow workflow)
       \<and> ''Workflow contains circular dependencies'' \<in> set (errors (validateWorkflow workflow))"
proof -
  let ?errs1 = "if length (filter (\<lambda>node. node_type node = Trigger) (nodes workflow)) = 0
                then [''Workflow must have at least one trigger node''] else []"
  let ?errs2 = "?errs1 @ [''Workflow contains circular dependencies'']"
  have e: "errors (validateWorkflow workflow) = foldl (check_connection workflow) ?errs2 (connections workflow)"
    using assms by (simp add: validateWorkflow_def Let_def)
  have v: "isValid (validateWorkflow workflow) = (length (errors (validateWorkflow workflow)) = 0)"
    by (simp add: validateWorkflow_def Let_def)
  have "''Workflow contains circular dependencies'' \<in> set ?errs2" by simp
  then have m: "''Workflow contains circular dependencies'' \<in> set (errors (validateWorkflow workflow))"
    unfolding e using foldl_check_connection_keeps by blast
  then have "errors (validateWorkflow workflow) \<noteq> []" by auto
  with v m show ?thesis by simp
qed

text \<open>
  Claim C5. If the connections of a workflow contain a cycle that is reached, along
  connections, from one of the workflow's nodes (from a trigger node in particular; a
  node that lies on the cycle reaches it trivially), then \<open>validateWorkflow\<close> reports the
  workflow as not valid, and its list of errors holds the entry
  \<open>Workflow contains circular dependencies\<close>, which mentions \<open>circular\<close>.
\<close>

theorem validateWorkflow_rejects_cycle:
  assumes "r \<in> set (nodes workflow)"
    and "(node_id r, n) \<in> (edges (connections workflow))\<^sup>*"
    and "(n, n) \<in> (edges (connections workflow))\<^sup>+"
  shows "\<not> isValid (validateWorkflow workflow)
       \<and> ''Workflow contains circular dependencies'' \<in> set (errors (validateWorkflow workflow))
       \<and> sublist ''circular'' ''Workflow contains circular dependencies''"
proof -
  have "hasCircularDependencies workflow"
    using assms by (rule hasCircularDependencies_complete)
  then have "\<not> isValid (validateWorkflow workflow)
       \<and> ''Workflow contains circular dependencies'' \<in> set (errors (validateWorkflow workflow))"
    by (rule validateWorkflow_circular)
  moreover have "''Workflow contains circular dependencies''
        = ''Workflow contains '' @ ''circular'' @ '' dependencies''" by simp
  then have "sublist ''circular'' ''Workflow contains circular dependencies''"
    unfolding sublist_def by blast
  ultimately show ?thesis by simp
qed

theorem validateWorkflow_rejects_cycle_witness:
  "mk_node ''T'' Trigger \<in> set (nodes cyclic_workflow)
   \<and> node_type (mk_node ''T'' Trigger) = Trigger
   \<and> (node_id (mk_node ''T'' Trigger), ''X'') \<in> (edges (connections cyclic_workflow))\<^sup>*
   \<and> (''X'', ''X'') \<in> (edges (connections cyclic_workflow))\<^sup>+
   \<and> \<not> isValid (validateWorkflow cyclic_workflow)
   \<and> ''Workflow contains circular dependencies'' \<in> set (errors (validateWorkflow cyclic_workflow))"
proof -
  have e: "edges (connections cyclic_workflow) = {(''T'', ''X''), (''X'', ''T'')}"
    by (simp add: edges_def example_defs)
  have a: "mk_node ''T'' Trigger \<in> set (nodes cyclic_workflow)" by (simp add: example_defs)
  have b: "node_type (mk_node ''T'' Trigger) = Trigger" by (simp add: mk_node_def)
  have c: "(node_id (mk_node ''T'' Trigger), ''X'') \<in> (edges (connections cyclic_workflow))\<^sup>*"
    unfolding e by (rule r_into_rtrancl) (simp add: mk_node_def)
  have "(''X'', ''T'') \<in> {(''T'', ''X''), (''X'', ''T'')}\<^sup>+" by (rule r_into_trancl) simp
  moreover have "(''T'', ''X'') \<in> {(''T'', ''X''), (''X'', ''T'')}" by simp
  ultimately have d: "(''X'', ''X'') \<in> (edges (connections cyclic_workflow))\<^sup>+"
    unfolding e by (rule trancl_into_trancl)
  from a b c d validateWorkflow_rejects_cycle [OF a c d] show ?thesis by (intro conjI) simp_all
qed

end
